theory Spec2Isabelle
  imports Main
begin

section \<open>Characters and the tag vocabulary\<close>

text \<open>
  The program splits its source with \<^verbatim>\<open>Array.from(source)\<close> and works on the array of
  characters. A character of the model is a \<^typ>\<open>char\<close>, read as a code point below 256.
  \<^verbatim>\<open>isLetter\<close> is \<^verbatim>\<open>input.toLowerCase() !== input.toUpperCase()\<close>: below 256 the two case
  mappings differ on A-Z, a-z, the micro sign (181) and the accented letters 192-214,
  216-246 and 248-255 (215 and 247 are the multiplication and division signs).
\<close>

definition isLetter :: "char \<Rightarrow> bool" where
  "isLetter c =
     (let n = (of_char c :: nat) in
        (65 \<le> n \<and> n \<le> 90) \<or> (97 \<le> n \<and> n \<le> 122) \<or> n = 181 \<or>
        (192 \<le> n \<and> n \<le> 214) \<or> (216 \<le> n \<and> n \<le> 246) \<or> (248 \<le> n \<and> n \<le> 255))"

definition isNumber :: "char \<Rightarrow> bool" where
  "isNumber c = (c \<in> set ''0123456789'')"

definition isWhitespace :: "char \<Rightarrow> bool" where
  "isWhitespace c = (c \<in> set [CHR '' '', CHR 0x09, CHR 0x0D, CHR 0x0A])"

text \<open>
  The table of void elements is imported from the package \<^verbatim>\<open>html-tags/void\<close>, which is not
  part of the sources: every function that consults it takes the table as its first
  argument \<open>vt\<close>. The table of elements with an optional closing tag is the program's own.
\<close>

definition optionalVoidHtmlTags :: "string list" where
  "optionalVoidHtmlTags = [''li'']"

definition isVoidTag :: "string list \<Rightarrow> string \<Rightarrow> bool" where
  "isVoidTag vt tag = (tag \<in> set vt)"

definition isOptionalVoidTag :: "string \<Rightarrow> bool" where
  "isOptionalVoidTag tag = (tag \<in> set optionalVoidHtmlTags)"

definition haveToHaveClosingTag :: "string list \<Rightarrow> string \<Rightarrow> bool" where
  "haveToHaveClosingTag vt tag = (\<not> (isVoidTag vt tag \<or> isOptionalVoidTag tag))"

text \<open>
  Modelled from the spec: the contents of the imported table \<^verbatim>\<open>html-tags/void\<close>, which the
  sources do not hold. The spec names \<^verbatim>\<open>img\<close> and \<^verbatim>\<open>br\<close> as void elements; the list below is
  the void elements of HTML. It is used only where a concrete table is needed to run the
  program on an input; the general theorems hold for every table.
\<close>

definition voidHtmlTags :: "string list" where
  "voidHtmlTags =
     [''area'', ''base'', ''br'', ''col'', ''embed'', ''hr'', ''img'', ''input'', ''link'',
      ''menuitem'', ''meta'', ''param'', ''source'', ''track'', ''wbr'']"

section \<open>Options, errors and the scanner's state\<close>

text \<open>
  A suffix is a string, a function producing one, or null; the producer is called at most
  once and only for its value, so a configured suffix is modelled by that value.
\<close>

record Options =
  breakWords :: bool
  suffix :: "string option"
  shouldEncloseSuffixInTags :: bool

definition DEFAULT_OPTIONS :: Options where
  "DEFAULT_OPTIONS = \<lparr>breakWords = True, suffix = None, shouldEncloseSuffixInTags = False\<rparr>"

text \<open>
  The third argument of \<^verbatim>\<open>html_substring\<close> is a string (the suffix) or a partial options
  object, spread over the defaults: a property the object does not have is \<open>None\<close>, and a
  suffix property that is null is \<open>Some None\<close>.
\<close>

datatype options_arg =
  SuffixString string
  | PartialOptions "bool option" "string option option" "bool option"

fun resolve_options :: "options_arg \<Rightarrow> Options" where
  "resolve_options (SuffixString sfx) = DEFAULT_OPTIONS\<lparr>suffix := Some sfx\<rparr>"
| "resolve_options (PartialOptions bw sfx encl) =
     \<lparr>breakWords = (case bw of None \<Rightarrow> breakWords DEFAULT_OPTIONS | Some b \<Rightarrow> b),
      suffix = (case sfx of None \<Rightarrow> suffix DEFAULT_OPTIONS | Some x \<Rightarrow> x),
      shouldEncloseSuffixInTags =
        (case encl of None \<Rightarrow> shouldEncloseSuffixInTags DEFAULT_OPTIONS | Some b \<Rightarrow> b)\<rparr>"

text \<open>
  The only exception the program throws: \<^verbatim>\<open>Unexpected closing tag '${tag}' on offset ${offset}\<close>.
  The error value keeps the two interpolated parts of the message.
\<close>

datatype error = HtmlSubstringError string nat

text \<open>
  The result accumulator is append-only and never read before it is returned. The model
  keeps it as the list of the pieces appended, each tagged with the statement that
  appended it; the string the program returns is the concatenation of their texts.
\<close>

datatype piece =
  Text string
  | Entity string
  | OpenTag string string
  | CloseTag string
  | Closer string
  | Suffix string

fun render_piece :: "piece \<Rightarrow> string" where
  "render_piece (Text t) = t"
| "render_piece (Entity t) = t"
| "render_piece (OpenTag tag other) = ''<'' @ tag @ other @ ''>''"
| "render_piece (CloseTag tag) = ''</'' @ tag @ ''>''"
| "render_piece (Closer t) = t"
| "render_piece (Suffix t) = t"

definition render :: "piece list \<Rightarrow> string" where
  "render ps = concat (map render_piece ps)"

text \<open>
  The variables the closures of \<^verbatim>\<open>html_substring\<close> share. \<open>cursor\<close> is the source position
  \<^verbatim>\<open>i\<close>; the character array and the length limit never change and are passed beside
  the state. The length limit \<open>len\<close> is an integer of any sign, and so is the count
  \<open>current\<close> of the visible characters written.
\<close>

record state =
  current :: int
  cursor :: nat
  openedQueue :: "(string \<times> string) list"
  closeQueue :: "string list"
  result :: "piece list"
  suffixAdded :: bool
  cw :: string
  cwEmpty :: bool

definition init_state :: state where
  "init_state =
     \<lparr>current = 0, cursor = 0, openedQueue = [], closeQueue = [], result = [],
      suffixAdded = False, cw = [], cwEmpty = True\<rparr>"

text \<open>\<^verbatim>\<open>chars[i]\<close>: \<open>None\<close> is JavaScript's \<^verbatim>\<open>undefined\<close> of a read past the end.\<close>

definition char_at :: "string \<Rightarrow> nat \<Rightarrow> char option" where
  "char_at chars i = (if i < length chars then Some (chars ! i) else None)"

section \<open>The tag scanner\<close>

text \<open>
  The two loops of \<^verbatim>\<open>openTag\<close>. Each returns the position after the loop, the text
  collected and the last character read (\<open>None\<close> is the initial empty string).
\<close>

function openTag_name :: "string \<Rightarrow> nat \<Rightarrow> string \<Rightarrow> char option \<Rightarrow> nat \<times> string \<times> char option" where
  "openTag_name chars i tag c =
     (if i < length chars then
        (let c' = chars ! i in
           if \<not> isLetter c' \<and> \<not> isNumber c' then (Suc i, tag, Some c')
           else openTag_name chars (Suc i) (tag @ [c']) (Some c'))
      else (i, tag, c))"
  by pat_completeness auto
termination
  by (relation "measure (\<lambda>(chars, i, tag, c). length chars - i)") auto

declare openTag_name.simps [simp del]

function openTag_other :: "string \<Rightarrow> nat \<Rightarrow> string \<Rightarrow> char option \<Rightarrow> nat \<times> string \<times> char option" where
  "openTag_other chars i other c =
     (if i < length chars then
        (let c' = chars ! i in
           if c' = CHR ''>'' then (Suc i, other, Some c')
           else openTag_other chars (Suc i) (other @ [c']) (Some c'))
      else (i, other, c))"
  by pat_completeness auto
termination
  by (relation "measure (\<lambda>(chars, i, other, c). length chars - i)") auto

declare openTag_other.simps [simp del]

definition openTag :: "string \<Rightarrow> state \<Rightarrow> state \<times> (string \<times> string) option" where
  "openTag chars s =
     (let tagStart = cursor s;
          (i1, tag, c1) = openTag_name chars tagStart [] None;
          (i2, other, c2) =
            (if tag \<noteq> [] \<and> i1 < length chars \<and> c1 \<noteq> Some CHR ''>''
             then openTag_other chars i1 (case c1 of None \<Rightarrow> [] | Some ch \<Rightarrow> [ch]) c1
             else (i1, [], c1))
      in if tag = [] \<or> c2 \<noteq> Some CHR ''>''
         then (s\<lparr>cw := cw s @ ''<'', cursor := tagStart\<rparr>, None)
         else (s\<lparr>cursor := i2\<rparr>, Some (tag, other)))"

function closeTag :: "string \<Rightarrow> nat \<Rightarrow> string \<Rightarrow> nat \<times> string" where
  "closeTag chars i tag =
     (if i < length chars then
        (let c = chars ! i in
           if c = CHR ''>'' then (Suc i, tag)
           else closeTag chars (Suc i) (tag @ [c]))
      else (i, tag))"
  by pat_completeness auto
termination
  by (relation "measure (\<lambda>(chars, i, tag). length chars - i)") auto

declare closeTag.simps [simp del]

section \<open>The open-tag queue, the close-tag stack and the suffix\<close>

function openTags :: "string list \<Rightarrow> bool \<Rightarrow> state \<Rightarrow> state" where
  "openTags vt onlyVoid s =
     (case openedQueue s of
        [] \<Rightarrow> s
      | (tag, other) # rest \<Rightarrow>
          (let isVoid = isVoidTag vt tag;
               isOptionalVoid = isOptionalVoidTag tag;
               isXHTMLClosed = (other \<noteq> [] \<and> last other = CHR ''/'')
           in if onlyVoid \<and> \<not> (isVoid \<or> isXHTMLClosed) then s
              else openTags vt onlyVoid
                (s\<lparr>openedQueue := rest,
                   result := result s @ [OpenTag tag other],
                   closeQueue :=
                     (if \<not> (isVoid \<or> isOptionalVoid \<or> isXHTMLClosed)
                      then closeQueue s @ [''</'' @ tag @ ''>'']
                      else closeQueue s)\<rparr>)))"
  by pat_completeness auto
termination
  by (relation "measure (\<lambda>(vt, onlyVoid, s). length (openedQueue s))") auto

declare openTags.simps [simp del]

text \<open>
  The search of the close-tag stack for a closing tag: pop until the popped entry is the
  one wanted. The flag is \<^verbatim>\<open>success\<close>; the list is the stack that is left.
\<close>

function popCloseQueue :: "string \<Rightarrow> string list \<Rightarrow> bool \<times> string list" where
  "popCloseQueue wanted cq =
     (if cq \<noteq> [] then
        (if last cq = wanted then (True, butlast cq)
         else popCloseQueue wanted (butlast cq))
      else (False, cq))"
  by pat_completeness auto
termination
  by (relation "measure (\<lambda>(wanted, cq). length cq)") auto

declare popCloseQueue.simps [simp del]

definition addSuffix :: "Options \<Rightarrow> state \<Rightarrow> piece list \<Rightarrow> state \<times> piece list" where
  "addSuffix opts s res =
     (case suffix opts of
        Some sfx \<Rightarrow>
          if \<not> suffixAdded s then (s\<lparr>suffixAdded := True\<rparr>, res @ [Suffix sfx])
          else (s, res)
      | None \<Rightarrow> (s, res))"

section \<open>The word buffer\<close>

definition flushWord :: "string list \<Rightarrow> int \<Rightarrow> Options \<Rightarrow> state \<Rightarrow> bool \<times> state" where
  "flushWord vt len opts s =
     (if breakWords opts then
        (if cw s = [] then (True, s)
         else
           (let addable = max (min (len - current s) (int (length (cw s)))) 0 in
              if addable = 0 then (False, s)
              else
                (let s1 = openTags vt False s in
                   (True,
                    s1\<lparr>result := result s1 @ [Text (take (nat addable) (cw s1))],
                       current := current s1 + addable,
                       cw := drop (nat addable) (cw s1)\<rparr>))))
      else
        (if cw s = [] then (True, s)
         else if current s + int (length (cw s)) \<le> len then
           (let s1 = openTags vt False s in
              (True,
               s1\<lparr>result := result s1 @ [Text (cw s1)],
                  current := current s1 + int (length (cw s1)),
                  cw := []\<rparr>))
         else (False, s)))"

section \<open>The driver\<close>

text \<open>
  The loop that copies a comment. Its condition reads past the end of the array as
  \<^verbatim>\<open>undefined\<close>, which differs from every character, so nothing in the loop itself bounds
  it: it is a partial function, and \<open>None\<close> is a run that never leaves it. Appending
  \<^verbatim>\<open>undefined\<close> to a string appends the nine characters of that word.
\<close>

partial_function (option) comment_loop ::
    "string \<Rightarrow> nat \<Rightarrow> int \<Rightarrow> piece list \<Rightarrow> (nat \<times> int \<times> piece list) option" where
  "comment_loop chars i cur res =
     (if char_at chars i \<noteq> Some CHR ''-'' \<and> char_at chars (i + 1) \<noteq> Some CHR ''-''
           \<and> char_at chars (i + 2) \<noteq> Some CHR ''>''
      then comment_loop chars (Suc i) (cur + 1)
             (res @ [Text (case char_at chars i of None \<Rightarrow> ''undefined'' | Some c \<Rightarrow> [c])])
      else Some (i, cur, res))"

declare comment_loop.simps [code]

text \<open>The loop of the \<^verbatim>\<open>'&'\<close> case; \<open>offset\<close> is the position of the ampersand.\<close>

function entity_loop :: "string \<Rightarrow> nat \<Rightarrow> nat \<Rightarrow> piece list \<Rightarrow> nat \<times> piece list" where
  "entity_loop chars offset i res =
     (if i < length chars then
        (let c = chars ! i in
           if isWhitespace c then (offset + 1, res)
           else if c = CHR '';'' then
             (Suc i, res @ [Entity (take (Suc i - (offset + 1)) (drop (offset + 1) chars))])
           else entity_loop chars offset (Suc i) res)
      else (i, res))"
  by pat_completeness auto
termination
  by (relation "measure (\<lambda>(chars, offset, i, res). length chars - i)") auto

declare entity_loop.simps [simp del]

text \<open>
  One iteration of the main loop ends in one of three ways: the loop goes on, the loop is
  left by \<^verbatim>\<open>break mainloop\<close>, or the error is thrown.
\<close>

datatype flow = Continue state | Break state | Throw error

text \<open>
  The case of a closing tag, entered with the position on the \<^verbatim>\<open>/\<close>. The pair
  \<open>(success, cq)\<close> is the outcome of the search of the close-tag stack, which is only made
  for an element that has to have a closing tag.
\<close>

definition closing_tag :: "string list \<Rightarrow> string \<Rightarrow> int \<Rightarrow> Options \<Rightarrow> state \<Rightarrow> flow" where
  "closing_tag vt chars len opts s =
     (let s1 = openTags vt False s;
          offset = cursor s1 - 1;
          (j, tag) = closeTag chars (Suc (cursor s1)) [];
          s2 = s1\<lparr>cursor := j\<rparr>;
          (success, cq) =
            (if haveToHaveClosingTag vt tag
             then popCloseQueue (''</'' @ tag @ ''>'') (closeQueue s2)
             else (False, closeQueue s2))
      in if haveToHaveClosingTag vt tag \<and> \<not> success then Throw (HtmlSubstringError tag offset)
         else
           (let s3 = s2\<lparr>closeQueue := cq\<rparr>;
                (s4, res) =
                  (if len \<le> current s3 \<and> shouldEncloseSuffixInTags opts
                   then addSuffix opts s3 (result s3)
                   else (s3, result s3))
            in Continue (s4\<lparr>result := res @ [CloseTag tag]\<rparr>)))"

text \<open>
  One iteration of the main loop, entered with the loop condition holding, so that the
  position is inside the array.
\<close>

definition step :: "string list \<Rightarrow> string \<Rightarrow> int \<Rightarrow> Options \<Rightarrow> state \<Rightarrow> flow option" where
  "step vt chars len opts s0 =
     (let c = chars ! cursor s0;
          s = s0\<lparr>cursor := Suc (cursor s0)\<rparr>
      in if c = CHR ''<'' then
           (case flushWord vt len opts s of
              (False, s1) \<Rightarrow> Some (Break s1)
            | (True, s1) \<Rightarrow>
                if char_at chars (cursor s1) = Some CHR ''!'' then
                  (if char_at chars (cursor s1 + 1) = Some CHR ''-''
                        \<and> char_at chars (cursor s1 + 2) = Some CHR ''-''
                   then
                     (case comment_loop chars (cursor s1 + 2) (current s1) (result s1) of
                        None \<Rightarrow> None
                      | Some (j, cur, res) \<Rightarrow>
                          Some (Continue (s1\<lparr>cursor := j + 2, current := cur, result := res\<rparr>)))
                   else
                     Some (Continue (s1\<lparr>current := current s1 + 1,
                                        result := result s1 @ [Text ''<'']\<rparr>)))
                else if char_at chars (cursor s1) = Some CHR ''/'' then
                  Some (closing_tag vt chars len opts s1)
                else
                  (case openTag chars s1 of
                     (s2, None) \<Rightarrow> Some (Continue s2)
                   | (s2, Some t) \<Rightarrow> Some (Continue (s2\<lparr>openedQueue := openedQueue s2 @ [t]\<rparr>))))
         else if c = CHR ''&'' then
           (let offset = cursor s - 1;
                s1 = s\<lparr>result := result s @ [Text ''&''], current := current s + 1\<rparr>;
                (j, res) = entity_loop chars offset (cursor s1) (result s1)
            in Some (Continue (s1\<lparr>cursor := j, result := res\<rparr>)))
         else
           (case (if \<not> isLetter c \<and> \<not> cwEmpty s
                  then flushWord vt len opts (s\<lparr>cwEmpty := True\<rparr>)
                  else (True, s)) of
              (False, s1) \<Rightarrow> Some (Break s1)
            | (True, s1) \<Rightarrow>
                (let s2 = (if \<not> isWhitespace c then s1\<lparr>cwEmpty := False\<rparr> else s1)
                 in Some (Continue (s2\<lparr>cw := cw s2 @ [c]\<rparr>)))))"

subsection \<open>Progress of one iteration\<close>

text \<open>
  Every iteration that lets the loop go on leaves the position further right than it found
  it. The termination of the main loop rests on this.
\<close>

lemma openTag_name_cursor: "openTag_name chars i tag c = (j, t, c') \<Longrightarrow> i \<le> j"
proof (induction chars i tag c rule: openTag_name.induct)
  case (1 chars i tag c)
  then show ?case
    by (subst (asm) (2) openTag_name.simps) (auto simp: Let_def split: if_splits)
qed

lemma openTag_other_cursor: "openTag_other chars i other c = (j, t, c') \<Longrightarrow> i \<le> j"
proof (induction chars i other c rule: openTag_other.induct)
  case (1 chars i other c)
  then show ?case
    by (subst (asm) (2) openTag_other.simps) (auto simp: Let_def split: if_splits)
qed

lemma closeTag_cursor: "closeTag chars i tag = (j, t) \<Longrightarrow> i \<le> j"
proof (induction chars i tag rule: closeTag.induct)
  case (1 chars i tag)
  then show ?case
    by (subst (asm) (2) closeTag.simps) (auto simp: Let_def split: if_splits)
qed

lemma entity_loop_cursor:
  "entity_loop chars offset i res = (j, r) \<Longrightarrow> offset < i \<Longrightarrow> offset < j"
proof (induction chars offset i res rule: entity_loop.induct)
  case (1 chars offset i res)
  then show ?case
    by (subst (asm) (2) entity_loop.simps) (auto simp: Let_def split: if_splits)
qed

subsection \<open>What the queue and the word buffer leave alone\<close>

lemma openTags_frame:
  "cursor (openTags vt b s) = cursor s \<and> current (openTags vt b s) = current s
   \<and> cw (openTags vt b s) = cw s \<and> cwEmpty (openTags vt b s) = cwEmpty s
   \<and> suffixAdded (openTags vt b s) = suffixAdded s"
proof (induction vt b s rule: openTags.induct)
  case (1 vt onlyVoid s)
  show ?case
  proof (cases "openedQueue s")
    case Nil
    then show ?thesis by (subst (1 2 3 4 5) openTags.simps) simp
  next
    case (Cons p rest)
    obtain tag other where p: "p = (tag, other)" by (cases p)
    show ?thesis
    proof (cases "onlyVoid \<and> \<not> (isVoidTag vt tag \<or> (other \<noteq> [] \<and> last other = CHR ''/''))")
      case True
      then show ?thesis using Cons p by (subst (1 2 3 4 5) openTags.simps) simp
    next
      case False
      then show ?thesis
        using Cons p "1.IH" [OF Cons p [symmetric] refl refl refl False]
        by (subst (1 2 3 4 5) openTags.simps) (simp add: Let_def)
    qed
  qed
qed

lemma flushWord_frame:
  "flushWord vt len opts s = (b, s') \<Longrightarrow>
     cursor s' = cursor s \<and> suffixAdded s' = suffixAdded s \<and> cwEmpty s' = cwEmpty s"
  by (auto simp: flushWord_def Let_def openTags_frame split: if_splits)

lemma comment_loop_dash:
  "char_at chars i = Some CHR ''-'' \<Longrightarrow> comment_loop chars i cur res = Some (i, cur, res)"
  by (subst comment_loop.simps) simp

lemma openTag_cursor: "openTag chars s = (s', r) \<Longrightarrow> cursor s \<le> cursor s'"
  unfolding openTag_def Let_def
  by (auto split: prod.splits if_splits dest!: openTag_name_cursor openTag_other_cursor)

lemma addSuffix_frame:
  "addSuffix opts s res = (s', res') \<Longrightarrow>
     cursor s' = cursor s \<and> current s' = current s \<and> cw s' = cw s \<and> cwEmpty s' = cwEmpty s
     \<and> openedQueue s' = openedQueue s \<and> closeQueue s' = closeQueue s \<and> result s' = result s"
  by (auto simp: addSuffix_def split: option.splits if_splits)

lemma closing_tag_cursor:
  "closing_tag vt chars len opts s = Continue s' \<Longrightarrow> cursor s < cursor s'"
  unfolding closing_tag_def Let_def
  by (auto split: prod.splits if_splits dest!: closeTag_cursor addSuffix_frame simp: openTags_frame)

lemma step_progress:
  assumes "step vt chars len opts s = Some (Continue s')"
  shows "cursor s < cursor s'"
proof -
  let ?c = "chars ! cursor s"
  let ?s = "s\<lparr>cursor := Suc (cursor s)\<rparr>"
  consider (lt) "?c = CHR ''<''" | (amp) "?c \<noteq> CHR ''<''" "?c = CHR ''&''"
    | (other) "?c \<noteq> CHR ''<''" "?c \<noteq> CHR ''&''" by blast
  then show ?thesis
  proof cases
    case lt
    obtain b s1 where fw: "flushWord vt len opts ?s = (b, s1)" by (cases "flushWord vt len opts ?s")
    from flushWord_frame [OF fw] have c1: "cursor s1 = Suc (cursor s)" by simp
    show ?thesis using assms lt fw c1
      unfolding step_def Let_def
      by (auto split: if_splits option.splits prod.splits bool.splits
          simp: comment_loop_dash dest!: closing_tag_cursor openTag_cursor)
  next
    case amp
    then show ?thesis using assms
      unfolding step_def Let_def
      by (auto split: prod.splits dest!: entity_loop_cursor)
  next
    case other
    then show ?thesis using assms
      unfolding step_def Let_def
      by (auto split: prod.splits if_splits bool.splits dest!: flushWord_frame)
  qed
qed

subsection \<open>The main loop and the finalization\<close>

function mainloop :: "string list \<Rightarrow> string \<Rightarrow> int \<Rightarrow> Options \<Rightarrow> state \<Rightarrow> (error + state) option" where
  "mainloop vt chars len opts s =
     (if current s < len \<and> cursor s < length chars then
        (case step vt chars len opts s of
           None \<Rightarrow> None
         | Some (Continue s') \<Rightarrow> mainloop vt chars len opts s'
         | Some (Break s') \<Rightarrow> Some (Inr s')
         | Some (Throw e) \<Rightarrow> Some (Inl e))
      else Some (Inr s))"
  by pat_completeness auto
termination
proof (relation "measure (\<lambda>(vt, chars, len, opts, s). length chars - cursor s)")
  show "wf (measure (\<lambda>(vt, chars, len, opts, s). length chars - cursor s))" by simp
next
  fix vt chars len opts and s s' :: state and x2
  assume "current s < len \<and> cursor s < length chars"
    and "step vt chars len opts s = Some x2" and "x2 = Continue s'"
  then show "((vt, chars, len, opts, s'), (vt, chars, len, opts, s))
      \<in> measure (\<lambda>(vt, chars, len, opts, s). length chars - cursor s)"
    using step_progress [of vt chars len opts s s'] by (auto intro: diff_less_mono2)
qed

declare mainloop.simps [simp del]

text \<open>
  The states the main loop passes through from \<open>s0\<close>: each is the state at the head of
  an iteration, and the next one is entered when the loop condition holds and the
  iteration ends without \<^verbatim>\<open>break\<close> or \<^verbatim>\<open>throw\<close>.
\<close>

inductive reaches :: "string list \<Rightarrow> string \<Rightarrow> int \<Rightarrow> Options \<Rightarrow> state \<Rightarrow> state \<Rightarrow> bool"
  for vt chars len opts s0 where
    start: "reaches vt chars len opts s0 s0"
  | iteration: "reaches vt chars len opts s0 s \<Longrightarrow> current s < len \<Longrightarrow> cursor s < length chars \<Longrightarrow>
       step vt chars len opts s = Some (Continue s') \<Longrightarrow> reaches vt chars len opts s0 s'"

definition getResultWithSuffixAfterClosingTags ::
    "Options \<Rightarrow> state \<Rightarrow> piece list \<Rightarrow> string list \<Rightarrow> bool \<Rightarrow> piece list" where
  "getResultWithSuffixAfterClosingTags opts s res cq flushed =
     (let resultWithoutSuffix = res @ map Closer cq
      in if flushed then resultWithoutSuffix else snd (addSuffix opts s resultWithoutSuffix))"

definition getResultWithSuffixBeforeClosingTags ::
    "Options \<Rightarrow> state \<Rightarrow> piece list \<Rightarrow> string list \<Rightarrow> bool \<Rightarrow> piece list" where
  "getResultWithSuffixBeforeClosingTags opts s res cq flushed =
     (let resultWithSuffix = (if flushed then res else snd (addSuffix opts s res))
      in resultWithSuffix @ map Closer cq)"

text \<open>What follows the main loop: the pieces of the string returned.\<close>

definition finalize :: "string list \<Rightarrow> int \<Rightarrow> Options \<Rightarrow> state \<Rightarrow> piece list" where
  "finalize vt len opts s =
     (let s1 = openTags vt True s;
          (flushed, s2) = flushWord vt len opts s1;
          cq = rev (closeQueue s2)
      in if shouldEncloseSuffixInTags opts
         then getResultWithSuffixBeforeClosingTags opts s2 (result s2) cq flushed
         else getResultWithSuffixAfterClosingTags opts s2 (result s2) cq flushed)"

text \<open>
  The run on resolved options, as the pieces written; \<open>None\<close> is a run that does not
  return, \<open>Inl\<close> the error thrown.
\<close>

definition html_substring_pieces ::
    "string list \<Rightarrow> string \<Rightarrow> int \<Rightarrow> Options \<Rightarrow> (error + piece list) option" where
  "html_substring_pieces vt source len opts =
     (case mainloop vt source len opts init_state of
        None \<Rightarrow> None
      | Some (Inl e) \<Rightarrow> Some (Inl e)
      | Some (Inr s) \<Rightarrow> Some (Inr (finalize vt len opts s)))"

definition html_substring ::
    "string list \<Rightarrow> string \<Rightarrow> int \<Rightarrow> options_arg \<Rightarrow> (error + string) option" where
  "html_substring vt source len options =
     (case html_substring_pieces vt source len (resolve_options options) of
        None \<Rightarrow> None
      | Some (Inl e) \<Rightarrow> Some (Inl e)
      | Some (Inr ps) \<Rightarrow> Some (Inr (render ps)))"

text \<open>A call with two arguments: the third is the default options object.\<close>

definition default_options_arg :: options_arg where
  "default_options_arg =
     PartialOptions (Some (breakWords DEFAULT_OPTIONS)) (Some (suffix DEFAULT_OPTIONS))
       (Some (shouldEncloseSuffixInTags DEFAULT_OPTIONS))"

section \<open>The notions the properties are stated with\<close>

subsection \<open>What a run of the open-tag queue writes\<close>

text \<open>
  \<open>opened q\<close> is what emitting the queued tags \<open>q\<close> appends to the result, and
  \<open>closers_of vt q\<close> what it pushes on the close-tag stack.
\<close>

definition closable :: "string list \<Rightarrow> string \<times> string \<Rightarrow> bool" where
  "closable vt p =
     (case p of (tag, other) \<Rightarrow>
        \<not> (isVoidTag vt tag \<or> isOptionalVoidTag tag \<or> (other \<noteq> [] \<and> last other = CHR ''/'')))"

definition closers_of :: "string list \<Rightarrow> (string \<times> string) list \<Rightarrow> string list" where
  "closers_of vt q = map (\<lambda>(tag, other). ''</'' @ tag @ ''>'') (filter (closable vt) q)"

definition opened :: "(string \<times> string) list \<Rightarrow> piece list" where
  "opened q = map (\<lambda>(tag, other). OpenTag tag other) q"

subsection \<open>Balanced markup\<close>

text \<open>
  The tags of a string are read off it from left to right the way the program's scanner
  reads tags. After a \<^verbatim>\<open><\<close>, a \<^verbatim>\<open>/\<close> starts a closing tag, whose name is what stands before
  the next \<^verbatim>\<open>>\<close>; a letter or a digit starts an opening tag, whose name is the run of
  letters and digits and whose other text is what stands between the name and the next
  \<^verbatim>\<open>>\<close>; after any other character the \<^verbatim>\<open><\<close> was text. A tag that the string ends in the
  middle of is not a tag. \<open>tags_of out\<close> is the list of the tags of \<open>out\<close>, in their order.
\<close>

datatype scan_mode = Outside | AfterLt | InName string | InOther string string | InClose string

fun read_tags :: "scan_mode \<Rightarrow> string \<Rightarrow> piece list" where
  "read_tags m [] = []"
| "read_tags Outside (c # cs) =
     (if c = CHR ''<'' then read_tags AfterLt cs else read_tags Outside cs)"
| "read_tags AfterLt (c # cs) =
     (if c = CHR ''/'' then read_tags (InClose []) cs
      else if isLetter c \<or> isNumber c then read_tags (InName [c]) cs
      else if c = CHR ''<'' then read_tags AfterLt cs
      else read_tags Outside cs)"
| "read_tags (InName tag) (c # cs) =
     (if c = CHR ''>'' then OpenTag tag [] # read_tags Outside cs
      else if isLetter c \<or> isNumber c then read_tags (InName (tag @ [c])) cs
      else read_tags (InOther tag [c]) cs)"
| "read_tags (InOther tag other) (c # cs) =
     (if c = CHR ''>'' then OpenTag tag other # read_tags Outside cs
      else read_tags (InOther tag (other @ [c])) cs)"
| "read_tags (InClose tag) (c # cs) =
     (if c = CHR ''>'' then CloseTag tag # read_tags Outside cs
      else read_tags (InClose (tag @ [c])) cs)"


text \<open>
  Whether tags are balanced is decided by reading them from left to right with a stack of
  the closing tags owed. An opening tag of a closable element (not void, not
  optional-closing, not XHTML self-closed) pushes its closing tag. A closing tag of an
  element that has to have a closing tag is read in one of two ways: strictly
  (\<open>discard = False\<close>), it has to be the one on top of the stack; or (\<open>discard = True\<close>) it
  has to be somewhere on the stack, and it pops its topmost occurrence together with
  everything above it. \<open>None\<close> is a closing tag that finds no partner. The tags are
  balanced when the stack is empty at the end. The same reading applies to the pieces the
  program writes, among which a closing tag added by the finalization (\<open>Closer\<close>) has to be
  the one on top of the stack.

  \<open>string_balanced discard vt out\<close> reads the tags of the string \<open>out\<close> in this way: it
  depends on the characters of \<open>out\<close> and on nothing else.
\<close>

fun stack_step :: "bool \<Rightarrow> string list \<Rightarrow> piece \<Rightarrow> string list \<Rightarrow> string list option" where
  "stack_step discard vt (OpenTag tag other) st =
     Some (if closable vt (tag, other) then st @ [''</'' @ tag @ ''>''] else st)"
| "stack_step discard vt (CloseTag tag) st =
     (if haveToHaveClosingTag vt tag then
        (if discard then
           (if ''</'' @ tag @ ''>'' \<in> set st
            then Some (rev (tl (dropWhile (\<lambda>x. x \<noteq> ''</'' @ tag @ ''>'') (rev st))))
            else None)
         else if st \<noteq> [] \<and> last st = ''</'' @ tag @ ''>'' then Some (butlast st)
         else None)
      else Some st)"
| "stack_step discard vt (Closer c) st =
     (if st \<noteq> [] \<and> last st = c then Some (butlast st) else None)"
| "stack_step discard vt (Text t) st = Some st"
| "stack_step discard vt (Entity t) st = Some st"
| "stack_step discard vt (Suffix t) st = Some st"

fun tag_stack :: "bool \<Rightarrow> string list \<Rightarrow> piece list \<Rightarrow> string list \<Rightarrow> string list option" where
  "tag_stack discard vt [] st = Some st"
| "tag_stack discard vt (p # ps) st =
     (case stack_step discard vt p st of
        None \<Rightarrow> None
      | Some st' \<Rightarrow> tag_stack discard vt ps st')"


subsection \<open>The visible text of a string\<close>

text \<open>
  The visible text of a string is what stands outside its tags, the tags read as above: a
  \<^verbatim>\<open><\<close> that starts no tag is text, and a tag that the string ends in the middle of is
  left out.
\<close>

fun read_text :: "scan_mode \<Rightarrow> string \<Rightarrow> string" where
  "read_text m [] = []"
| "read_text Outside (c # cs) =
     (if c = CHR ''<'' then read_text AfterLt cs else c # read_text Outside cs)"
| "read_text AfterLt (c # cs) =
     (if c = CHR ''/'' then read_text (InClose []) cs
      else if isLetter c \<or> isNumber c then read_text (InName [c]) cs
      else if c = CHR ''<'' then CHR ''<'' # read_text AfterLt cs
      else CHR ''<'' # c # read_text Outside cs)"
| "read_text (InName tag) (c # cs) =
     (if c = CHR ''>'' then read_text Outside cs
      else if isLetter c \<or> isNumber c then read_text (InName (tag @ [c])) cs
      else read_text (InOther tag [c]) cs)"
| "read_text (InOther tag other) (c # cs) =
     (if c = CHR ''>'' then read_text Outside cs
      else read_text (InOther tag (other @ [c])) cs)"
| "read_text (InClose tag) (c # cs) =
     (if c = CHR ''>'' then read_text Outside cs
      else read_text (InClose (tag @ [c])) cs)"

definition text_of :: "string \<Rightarrow> string" where
  "text_of out = read_text Outside out"

subsection \<open>Sources whose markup is tags and entity references\<close>

text \<open>
  \<open>well_formed_markup source\<close>: each \<^verbatim>\<open><\<close> of the source is followed by a \<^verbatim>\<open>/\<close> (a closing
  tag) or by an opening tag that \<^verbatim>\<open>openTag\<close> accepts: a name of letters and digits, then
  \<^verbatim>\<open>>\<close>, or a character that is neither and a \<^verbatim>\<open>>\<close> further on; and what the \<^verbatim>\<open>'&'\<close>
  case copies for an \<^verbatim>\<open>&\<close> of the source (the characters up to the next \<^verbatim>\<open>;\<close>, if no
  whitespace comes first) has no \<^verbatim>\<open><\<close>. So the source has no comment, no \<^verbatim>\<open><\<close> that is
  text, no unfinished opening tag and no markup inside an entity reference.
  \<open>suffix_is_text opts\<close>: the suffix, if one is configured, has no \<^verbatim>\<open><\<close>.
\<close>

definition accepted_tag_at :: "string \<Rightarrow> nat \<Rightarrow> bool" where
  "accepted_tag_at chars i =
     (char_at chars i = Some CHR ''/''
      \<or> snd (openTag chars (init_state\<lparr>cursor := i\<rparr>)) \<noteq> None)"

definition entity_is_text :: "string \<Rightarrow> nat \<Rightarrow> bool" where
  "entity_is_text chars i =
     list_all (\<lambda>p. CHR ''<'' \<notin> set (render_piece p)) (snd (entity_loop chars i (Suc i) []))"

definition well_formed_markup :: "string \<Rightarrow> bool" where
  "well_formed_markup source =
     list_all (\<lambda>i. (source ! i \<noteq> CHR ''<'' \<or> accepted_tag_at source (Suc i))
                 \<and> (source ! i \<noteq> CHR ''&'' \<or> entity_is_text source i))
       [0..<length source]"

definition suffix_is_text :: "Options \<Rightarrow> bool" where
  "suffix_is_text opts = (case suffix opts of None \<Rightarrow> True | Some sfx \<Rightarrow> CHR ''<'' \<notin> set sfx)"

text \<open>
  \<open>tags_only source\<close>: the markup of the source is well formed in the sense above, the
  source has no \<^verbatim>\<open>&\<close>, and every closing tag of it is finished by a \<^verbatim>\<open>>\<close>.
\<close>

definition tags_only :: "string \<Rightarrow> bool" where
  "tags_only source =
     (well_formed_markup source \<and> CHR ''&'' \<notin> set source
      \<and> list_all (\<lambda>i. source ! i \<noteq> CHR ''<'' \<or> char_at source (Suc i) \<noteq> Some CHR ''/''
                   \<or> CHR ''>'' \<in> set (drop (Suc (Suc i)) source))
            [0..<length source])"

subsection \<open>Words\<close>

text \<open>
  \<open>cuts_token source k\<close>: the prefix of length \<open>k\<close> ends inside a token of the source, that
  is, the characters on both sides of the cut are not whitespace.

  With \<^verbatim>\<open>breakWords\<close> false the word buffer is written whole or not at all, and it is
  closed where a character that is not a letter is read while the buffer holds more than
  whitespace, and at the end of the source. \<open>closes_word source k j\<close>: a buffer that
  starts at position \<open>k\<close> of the source is closed at position \<open>j\<close>.
\<close>

definition cuts_token :: "string \<Rightarrow> nat \<Rightarrow> bool" where
  "cuts_token source k =
     (0 < k \<and> k < length source
      \<and> \<not> isWhitespace (source ! (k - 1)) \<and> \<not> isWhitespace (source ! k))"

definition closes_word :: "string \<Rightarrow> nat \<Rightarrow> nat \<Rightarrow> bool" where
  "closes_word source k j =
     (j = length source
      \<or> (\<not> isLetter (source ! j)
          \<and> list_ex (\<lambda>c. \<not> isWhitespace c) (drop k (take j source))))"

subsection \<open>The suffix among the pieces\<close>

fun suffix_count :: "piece list \<Rightarrow> nat" where
  "suffix_count [] = 0"
| "suffix_count (Suffix t # ps) = Suc (suffix_count ps)"
| "suffix_count (p # ps) = suffix_count ps"

text \<open>The options of a call, with the suffix text \<open>x\<close> in the place of its suffix.\<close>

fun with_suffix :: "string \<Rightarrow> options_arg \<Rightarrow> options_arg" where
  "with_suffix x (SuffixString sfx) = SuffixString x"
| "with_suffix x (PartialOptions bw sfx encl) = PartialOptions bw (Some (Some x)) encl"

subsection \<open>A closing tag without a partner\<close>

text \<open>
  The scan stands at a closing tag that nothing on the close-tag stack matches: the
  character at the position is \<^verbatim>\<open><\<close>, the next one \<^verbatim>\<open>/\<close>, the pending word could be
  flushed, the name read up to \<^verbatim>\<open>>\<close> is of an element that has to have a closing tag, and
  the stack, once the queued opening tags are written, does not hold its closing tag.
  \<open>e\<close> is the error for it: the name and the position of the \<^verbatim>\<open><\<close>.
\<close>

definition unmatched_closing_tag ::
    "string list \<Rightarrow> string \<Rightarrow> int \<Rightarrow> Options \<Rightarrow> state \<Rightarrow> error \<Rightarrow> bool" where
  "unmatched_closing_tag vt chars len opts s e =
     (chars ! cursor s = CHR ''<'' \<and> char_at chars (Suc (cursor s)) = Some CHR ''/'' \<and>
      (case flushWord vt len opts (s\<lparr>cursor := Suc (cursor s)\<rparr>) of
         (flushed, s1) \<Rightarrow>
           flushed \<and>
           (let tag = snd (closeTag chars (Suc (Suc (cursor s))) [])
            in haveToHaveClosingTag vt tag
               \<and> ''</'' @ tag @ ''>'' \<notin> set (closeQueue (openTags vt False s1))
               \<and> e = HtmlSubstringError tag (cursor s))))"

subsection \<open>What a stretch of the run appends\<close>

text \<open>
  \<open>extends vt s s'\<close>: from \<open>s\<close> to \<open>s'\<close> the result has only been appended to; read with the
  stack of \<open>s\<close>, the pieces appended leave the stack of \<open>s'\<close>; and they hold the suffix
  exactly if \<open>suffixAdded\<close> was set on the way, which is never reset.
\<close>

definition extends :: "string list \<Rightarrow> state \<Rightarrow> state \<Rightarrow> bool" where
  "extends vt s s' =
     (\<exists>ps. result s' = result s @ ps
        \<and> tag_stack True vt ps (closeQueue s) = Some (closeQueue s')
        \<and> suffix_count ps = (if suffixAdded s' \<and> \<not> suffixAdded s then 1 else 0)
        \<and> (suffixAdded s \<longrightarrow> suffixAdded s'))"

section \<open>Properties of the helpers\<close>

subsection \<open>The open-tag queue and the word buffer\<close>

lemma opened_simps:
  "opened [] = []" "opened ((tag, other) # q) = OpenTag tag other # opened q"
  "opened (q @ q') = opened q @ opened q'"
  by (simp_all add: opened_def)

lemma closers_of_simps:
  "closers_of vt [] = []"
  "closers_of vt (p # q) = closers_of vt [p] @ closers_of vt q"
  "closers_of vt (q @ q') = closers_of vt q @ closers_of vt q'"
  by (simp_all add: closers_of_def)

lemma openTags_Nil: "openedQueue s = [] \<Longrightarrow> openTags vt b s = s"
  by (subst openTags.simps) simp

lemma openTags_Cons:
  "openedQueue s = (tag, other) # rest \<Longrightarrow>
   openTags vt b s =
     (if b \<and> \<not> (isVoidTag vt tag \<or> (other \<noteq> [] \<and> last other = CHR ''/'')) then s
      else openTags vt b
        (s\<lparr>openedQueue := rest,
           result := result s @ [OpenTag tag other],
           closeQueue := closeQueue s @ closers_of vt [(tag, other)]\<rparr>))"
  by (subst openTags.simps) (auto simp add: Let_def closers_of_def closable_def)

lemma openTags_effect:
  "\<exists>n. n \<le> length (openedQueue s) \<and>
     openTags vt b s =
       s\<lparr>openedQueue := drop n (openedQueue s),
         result := result s @ opened (take n (openedQueue s)),
         closeQueue := closeQueue s @ closers_of vt (take n (openedQueue s))\<rparr>"
proof (induction "openedQueue s" arbitrary: s)
  case Nil
  then show ?case by (intro exI [of _ 0]) (simp add: openTags_Nil opened_simps closers_of_simps)
next
  case (Cons p rest)
  obtain tag other where p: "p = (tag, other)" by (cases p)
  have q: "openedQueue s = (tag, other) # rest" using Cons.hyps(2) p by simp
  show ?case
  proof (cases "b \<and> \<not> (isVoidTag vt tag \<or> (other \<noteq> [] \<and> last other = CHR ''/''))")
    case True
    then show ?thesis
      by (intro exI [of _ 0]) (simp add: openTags_Cons [OF q] opened_simps closers_of_simps)
  next
    case False
    let ?s = "s\<lparr>openedQueue := rest, result := result s @ [OpenTag tag other],
                 closeQueue := closeQueue s @ closers_of vt [(tag, other)]\<rparr>"
    have "rest = openedQueue ?s" by simp
    from Cons.hyps(1) [OF this] obtain n where n: "n \<le> length rest"
      and eq: "openTags vt b ?s =
         ?s\<lparr>openedQueue := drop n (openedQueue ?s),
           result := result ?s @ opened (take n (openedQueue ?s)),
           closeQueue := closeQueue ?s @ closers_of vt (take n (openedQueue ?s))\<rparr>"
      by auto
    have unfold: "openTags vt b s = openTags vt b ?s"
      using False by (auto simp add: openTags_Cons [OF q])
    show ?thesis
      using n
      by (intro exI [of _ "Suc n"])
         (simp add: unfold eq q opened_simps closers_of_simps(1,3) closers_of_simps(2) [of vt _ "take n rest"])
  qed
qed

lemma openTags_all:
  "openTags vt False s =
     s\<lparr>openedQueue := [],
       result := result s @ opened (openedQueue s),
       closeQueue := closeQueue s @ closers_of vt (openedQueue s)\<rparr>"
proof (induction "openedQueue s" arbitrary: s)
  case Nil
  then show ?case by (simp add: openTags_Nil opened_simps closers_of_simps)
next
  case (Cons p rest)
  obtain tag other where p: "p = (tag, other)" by (cases p)
  have q: "openedQueue s = (tag, other) # rest" using Cons.hyps(2) p by simp
  let ?s = "s\<lparr>openedQueue := rest, result := result s @ [OpenTag tag other],
               closeQueue := closeQueue s @ closers_of vt [(tag, other)]\<rparr>"
  have "rest = openedQueue ?s" by simp
  from Cons.hyps(1) [OF this] show ?case
    by (simp add: openTags_Cons [OF q] q opened_simps closers_of_simps(1,3) closers_of_simps(2) [of vt _ rest])
qed

lemma tag_stack_append:
  "tag_stack d vt (ps @ qs) st =
     (case tag_stack d vt ps st of None \<Rightarrow> None | Some st' \<Rightarrow> tag_stack d vt qs st')"
  by (induction ps arbitrary: st) (auto split: option.splits)

lemma suffix_count_append: "suffix_count (ps @ qs) = suffix_count ps + suffix_count qs"
  by (induction ps rule: suffix_count.induct) auto

lemma extends_refl: "extends vt s s"
  by (auto simp: extends_def)

lemma extends_trans:
  assumes "extends vt s s'" and "extends vt s' s''"
  shows "extends vt s s''"
proof -
  from assms(1) obtain ps where ps: "result s' = result s @ ps"
      "tag_stack True vt ps (closeQueue s) = Some (closeQueue s')"
      "suffix_count ps = (if suffixAdded s' \<and> \<not> suffixAdded s then 1 else 0)"
      "suffixAdded s \<longrightarrow> suffixAdded s'"
    unfolding extends_def by blast
  from assms(2) obtain qs where qs: "result s'' = result s' @ qs"
      "tag_stack True vt qs (closeQueue s') = Some (closeQueue s'')"
      "suffix_count qs = (if suffixAdded s'' \<and> \<not> suffixAdded s' then 1 else 0)"
      "suffixAdded s' \<longrightarrow> suffixAdded s''"
    unfolding extends_def by blast
  have 1: "result s'' = result s @ (ps @ qs)" using ps(1) qs(1) by simp
  have 2: "tag_stack True vt (ps @ qs) (closeQueue s) = Some (closeQueue s'')"
    using ps(2) qs(2) by (simp add: tag_stack_append)
  have 3: "suffix_count (ps @ qs) = (if suffixAdded s'' \<and> \<not> suffixAdded s then 1 else 0)"
    using ps(3,4) qs(3,4) by (cases "suffixAdded s"; cases "suffixAdded s'"; cases "suffixAdded s''")
      (simp_all add: suffix_count_append)
  have 4: "suffixAdded s \<longrightarrow> suffixAdded s''" using ps(4) qs(4) by blast
  show ?thesis unfolding extends_def using 1 2 3 4 by blast
qed

lemma extends_same:
  "result s' = result s \<Longrightarrow> closeQueue s' = closeQueue s \<Longrightarrow>
     suffixAdded s' = suffixAdded s \<Longrightarrow> extends vt s s'"
  by (auto simp: extends_def)

lemma tag_stack_opened:
  "tag_stack d vt (opened q) st = Some (st @ closers_of vt q)"
proof (induction q arbitrary: st)
  case Nil
  then show ?case by (simp add: opened_simps closers_of_simps)
next
  case (Cons p q)
  obtain tag other where p: "p = (tag, other)" by (cases p)
  show ?case
    unfolding p opened_simps
    by (simp add: Cons.IH closers_of_simps(2) [of vt _ q]) (simp add: closers_of_def)
qed

lemma suffix_count_opened: "suffix_count (opened q) = 0"
  by (induction q) (auto simp: opened_def)

lemma openTags_extends: "extends vt s (openTags vt b s)"
proof -
  obtain n where "openTags vt b s =
       s\<lparr>openedQueue := drop n (openedQueue s),
         result := result s @ opened (take n (openedQueue s)),
         closeQueue := closeQueue s @ closers_of vt (take n (openedQueue s))\<rparr>"
    using openTags_effect [of s vt b] by blast
  then show ?thesis
    unfolding extends_def
    by (intro exI [of _ "opened (take n (openedQueue s))"])
       (simp add: tag_stack_opened suffix_count_opened)
qed

lemma flushWord_False: "flushWord vt len opts s = (False, s') \<Longrightarrow> s' = s"
  by (auto simp: flushWord_def Let_def split: if_splits)

lemma flushWord_True:
  assumes "flushWord vt len opts s = (True, s')"
  shows "(cw s = [] \<and> s' = s) \<or>
     (\<exists>n. 0 < n \<and> n \<le> length (cw s) \<and> current s + int n \<le> len \<and>
        s' = s\<lparr>openedQueue := [],
               result := result s @ opened (openedQueue s) @ [Text (take n (cw s))],
               closeQueue := closeQueue s @ closers_of vt (openedQueue s),
               current := current s + int n,
               cw := drop n (cw s)\<rparr>)"
proof (cases "cw s = []")
  case True
  then show ?thesis using assms by (auto simp: flushWord_def split: if_splits)
next
  case False
  show ?thesis
  proof (cases "breakWords opts")
    case True
    define a where "a = max (min (len - current s) (int (length (cw s)))) 0"
    have fw: "flushWord vt len opts s =
        (if a = 0 then (False, s)
         else (True, (openTags vt False s)
                 \<lparr>result := result (openTags vt False s) @ [Text (take (nat a) (cw (openTags vt False s)))],
                  current := current (openTags vt False s) + a,
                  cw := drop (nat a) (cw (openTags vt False s))\<rparr>))"
      using False True unfolding flushWord_def Let_def a_def [symmetric] by simp
    from assms fw have pos: "a \<noteq> 0" by (auto split: if_splits)
    then have n: "0 < nat a" "nat a \<le> length (cw s)" "current s + int (nat a) \<le> len"
      unfolding a_def by auto
    have a: "int (nat a) = a" using pos unfolding a_def by auto
    have "s' = s\<lparr>openedQueue := [],
               result := result s @ opened (openedQueue s) @ [Text (take (nat a) (cw s))],
               closeQueue := closeQueue s @ closers_of vt (openedQueue s),
               current := current s + int (nat a),
               cw := drop (nat a) (cw s)\<rparr>"
      using assms pos unfolding fw a by (auto simp add: openTags_all)
    with n show ?thesis using False by blast
  next
    case nb: False
    from assms False nb have fit: "current s + int (length (cw s)) \<le> len"
      by (auto simp: flushWord_def Let_def split: if_splits)
    have "s' = s\<lparr>openedQueue := [],
               result := result s @ opened (openedQueue s) @ [Text (take (length (cw s)) (cw s))],
               closeQueue := closeQueue s @ closers_of vt (openedQueue s),
               current := current s + int (length (cw s)),
               cw := drop (length (cw s)) (cw s)\<rparr>"
      using assms False nb fit
      by (auto simp add: flushWord_def Let_def openTags_all)
    with fit show ?thesis using False by (intro disjI2 exI [of _ "length (cw s)"]) simp
  qed
qed

lemma flushWord_extends:
  assumes "flushWord vt len opts s = (ok, s')"
  shows "extends vt s s'"
proof (cases ok)
  case True
  with assms have fw: "flushWord vt len opts s = (True, s')" by simp
  from flushWord_True [OF fw] show ?thesis
  proof (elim disjE exE conjE)
    assume "s' = s"
    then show ?thesis by (simp add: extends_refl)
  next
    fix n
    assume s': "s' = s\<lparr>openedQueue := [],
               result := result s @ opened (openedQueue s) @ [Text (take n (cw s))],
               closeQueue := closeQueue s @ closers_of vt (openedQueue s),
               current := current s + int n,
               cw := drop n (cw s)\<rparr>"
    show ?thesis
      unfolding extends_def s'
      by (rule exI [of _ "opened (openedQueue s) @ [Text (take n (cw s))]"])
         (simp add: tag_stack_append tag_stack_opened suffix_count_append suffix_count_opened)
  qed
next
  case False
  with assms flushWord_False [of vt len opts s s'] show ?thesis by (simp add: extends_refl)
qed

text \<open>
  What one call of \<^verbatim>\<open>flushWord\<close> does. When \<^verbatim>\<open>breakWords\<close> is false it never writes a
  part of the word buffer: the whole buffer is written (after the queued opening tags) if
  \<^verbatim>\<open>current + cw.length <= length\<close>, and otherwise the call fails and leaves the state as
  it was. When \<^verbatim>\<open>breakWords\<close> is true and budget is left, it writes the leading characters
  of the buffer that the remaining budget \<^verbatim>\<open>length - current\<close> allows, keeps the rest in
  the buffer, and \<open>current\<close> becomes \<^verbatim>\<open>min(length, current + cw.length)\<close>. An empty buffer
  is a success that changes nothing.
\<close>

lemma flushWord_whole_or_cut:
  assumes "flushWord vt len opts s = (ok, s')"
  shows "(cw s = [] \<longrightarrow> ok \<and> s' = s)
    \<and> (\<not> breakWords opts \<and> cw s \<noteq> [] \<and> current s + int (length (cw s)) \<le> len \<longrightarrow>
          ok \<and> result s' = result s @ opened (openedQueue s) @ [Text (cw s)]
          \<and> cw s' = [] \<and> current s' = current s + int (length (cw s)))
    \<and> (\<not> breakWords opts \<and> cw s \<noteq> [] \<and> len < current s + int (length (cw s)) \<longrightarrow>
          \<not> ok \<and> s' = s)
    \<and> (breakWords opts \<and> cw s \<noteq> [] \<and> current s < len \<longrightarrow>
          ok \<and> result s' = result s @ opened (openedQueue s) @ [Text (take (nat (len - current s)) (cw s))]
          \<and> cw s' = drop (nat (len - current s)) (cw s)
          \<and> current s' = min len (current s + int (length (cw s))))
    \<and> (breakWords opts \<and> cw s \<noteq> [] \<and> len \<le> current s \<longrightarrow> \<not> ok \<and> s' = s)"
proof (intro conjI impI)
  assume "cw s = []"
  with assms show "ok" "s' = s" by (auto simp: flushWord_def split: if_splits)
next
  assume a: "\<not> breakWords opts \<and> cw s \<noteq> [] \<and> current s + int (length (cw s)) \<le> len"
  with assms have s': "ok"
    "s' = (openTags vt False s)\<lparr>result := result (openTags vt False s) @ [Text (cw s)],
        current := current s + int (length (cw s)), cw := []\<rparr>"
    by (auto simp: flushWord_def Let_def openTags_frame)
  show "ok" by fact
  show "result s' = result s @ opened (openedQueue s) @ [Text (cw s)]"
    "cw s' = []" "current s' = current s + int (length (cw s))"
    unfolding s' by (simp_all add: openTags_all)
next
  assume "\<not> breakWords opts \<and> cw s \<noteq> [] \<and> len < current s + int (length (cw s))"
  with assms show "\<not> ok" "s' = s" by (auto simp: flushWord_def Let_def)
next
  assume a: "breakWords opts \<and> cw s \<noteq> [] \<and> current s < len"
  define n where "n = min (len - current s) (int (length (cw s)))"
  have n: "0 < n" "max n 0 = n" using a unfolding n_def by auto
  from assms a have s': "ok"
    "s' = (openTags vt False s)\<lparr>result := result (openTags vt False s) @ [Text (take (nat n) (cw s))],
        current := current s + n, cw := drop (nat n) (cw s)\<rparr>"
    unfolding flushWord_def Let_def n_def [symmetric] using n
    by (auto simp: openTags_frame)
  have tk: "take (nat n) (cw s) = take (nat (len - current s)) (cw s)"
    "drop (nat n) (cw s) = drop (nat (len - current s)) (cw s)"
    unfolding n_def by (auto simp: min_def)
  show "ok" by fact
  show "result s' = result s @ opened (openedQueue s) @ [Text (take (nat (len - current s)) (cw s))]"
    "cw s' = drop (nat (len - current s)) (cw s)"
    "current s' = min len (current s + int (length (cw s)))"
    unfolding s' tk [symmetric] by (simp_all add: openTags_all n_def)
next
  assume "breakWords opts \<and> cw s \<noteq> [] \<and> len \<le> current s"
  with assms show "\<not> ok" "s' = s" by (auto simp: flushWord_def Let_def)
qed

subsection \<open>The close-tag stack, the suffix and the entity loop\<close>

lemma popCloseQueue_eq:
  "popCloseQueue w cq = (w \<in> set cq, rev (tl (dropWhile (\<lambda>x. x \<noteq> w) (rev cq))))"
proof (induction cq rule: rev_induct)
  case Nil
  then show ?case by (subst popCloseQueue.simps) simp
next
  case (snoc x xs)
  then show ?case by (subst popCloseQueue.simps) auto
qed

lemma addSuffix_cases:
  assumes "addSuffix opts s res = (s', res')"
  shows "(s' = s \<and> res' = res) \<or>
     (\<not> suffixAdded s \<and> s' = s\<lparr>suffixAdded := True\<rparr> \<and>
        (\<exists>sfx. suffix opts = Some sfx \<and> res' = res @ [Suffix sfx]))"
  using assms by (auto simp: addSuffix_def split: option.splits if_splits)

lemma closing_tag_extends:
  assumes "closing_tag vt chars len opts s = Continue s'"
  shows "extends vt s s'"
proof -
  define s1 where "s1 = openTags vt False s"
  obtain j tag where ct: "closeTag chars (Suc (cursor s1)) [] = (j, tag)"
    by (cases "closeTag chars (Suc (cursor s1)) []")
  define cq where "cq = (if haveToHaveClosingTag vt tag
      then rev (tl (dropWhile (\<lambda>x. x \<noteq> ''</'' @ tag @ ''>'') (rev (closeQueue s1))))
      else closeQueue s1)"
  define s3 where "s3 = s1\<lparr>cursor := j, closeQueue := cq\<rparr>"
  obtain s4 res where as: "(if len \<le> current s3 \<and> shouldEncloseSuffixInTags opts
      then addSuffix opts s3 (result s3) else (s3, result s3)) = (s4, res)"
    by (cases "if len \<le> current s3 \<and> shouldEncloseSuffixInTags opts
      then addSuffix opts s3 (result s3) else (s3, result s3)")
  from assms have found: "haveToHaveClosingTag vt tag \<Longrightarrow> ''</'' @ tag @ ''>'' \<in> set (closeQueue s1)"
    and s': "s' = s4\<lparr>result := res @ [CloseTag tag]\<rparr>"
    using as unfolding closing_tag_def Let_def s1_def [symmetric] ct s3_def cq_def
    by (auto simp: popCloseQueue_eq split: if_splits prod.splits)
  have step: "tag_stack True vt [CloseTag tag] (closeQueue s1) = Some cq"
    using found by (auto simp: cq_def)
  have e1: "extends vt s s1" unfolding s1_def by (rule openTags_extends)
  have "(s4 = s3 \<and> res = result s3) \<or>
     (\<not> suffixAdded s3 \<and> s4 = s3\<lparr>suffixAdded := True\<rparr> \<and>
        (\<exists>sfx. suffix opts = Some sfx \<and> res = result s3 @ [Suffix sfx]))"
    using as addSuffix_cases [of opts s3 "result s3" s4 res] by (auto split: if_splits)
  then have e2: "extends vt s1 s'"
  proof (elim disjE conjE exE)
    assume "s4 = s3" "res = result s3"
    then show ?thesis
      unfolding extends_def s' s3_def
      by (intro exI [of _ "[CloseTag tag]"]) (use step in simp)
  next
    fix sfx
    assume "\<not> suffixAdded s3" "s4 = s3\<lparr>suffixAdded := True\<rparr>" "res = result s3 @ [Suffix sfx]"
    then show ?thesis
      unfolding extends_def s' s3_def
      by (intro exI [of _ "[Suffix sfx, CloseTag tag]"]) (use step in simp)
  qed
  from e1 e2 show ?thesis by (rule extends_trans)
qed

lemma entity_loop_result:
  "entity_loop chars offset i res = (j, res') \<Longrightarrow> res' = res \<or> (\<exists>e. res' = res @ [Entity e])"
proof (induction chars offset i res rule: entity_loop.induct)
  case (1 chars offset i res)
  then show ?case
    by (subst (asm) (2) entity_loop.simps) (auto simp: Let_def split: if_splits)
qed

subsection \<open>One iteration of the main loop\<close>

lemma openTag_frame:
  "openTag chars s = (s', r) \<Longrightarrow>
     result s' = result s \<and> closeQueue s' = closeQueue s \<and> suffixAdded s' = suffixAdded s
     \<and> current s' = current s \<and> openedQueue s' = openedQueue s"
  unfolding openTag_def Let_def by (auto split: prod.splits if_splits)

lemma extends_written:
  assumes "result s' = result s @ ps" and "closeQueue s' = closeQueue s"
    and "suffixAdded s' = suffixAdded s"
    and "tag_stack True vt ps (closeQueue s) = Some (closeQueue s)" and "suffix_count ps = 0"
  shows "extends vt s s'"
  unfolding extends_def using assms by (intro exI [of _ ps]) simp

lemma step_lt:
  assumes "chars ! cursor s = CHR ''<''"
    and "flushWord vt len opts (s\<lparr>cursor := Suc (cursor s)\<rparr>) = (ok, s1)"
  shows "step vt chars len opts s =
     (if \<not> ok then Some (Break s1)
      else if char_at chars (cursor s1) = Some CHR ''!'' then
        (if char_at chars (cursor s1 + 1) = Some CHR ''-''
              \<and> char_at chars (cursor s1 + 2) = Some CHR ''-''
         then Some (Continue (s1\<lparr>cursor := cursor s1 + 4\<rparr>))
         else Some (Continue (s1\<lparr>current := current s1 + 1, result := result s1 @ [Text ''<'']\<rparr>)))
      else if char_at chars (cursor s1) = Some CHR ''/'' then
        Some (closing_tag vt chars len opts s1)
      else
        (case openTag chars s1 of
           (s2, None) \<Rightarrow> Some (Continue s2)
         | (s2, Some t) \<Rightarrow> Some (Continue (s2\<lparr>openedQueue := openedQueue s2 @ [t]\<rparr>))))"
  using assms unfolding step_def Let_def
  by (cases ok) (simp_all add: comment_loop_dash)

lemma step_amp:
  assumes "chars ! cursor s = CHR ''&''"
    and "entity_loop chars (cursor s) (Suc (cursor s)) (result s @ [Text ''&'']) = (j, res)"
  shows "step vt chars len opts s =
     Some (Continue (s\<lparr>cursor := j, current := current s + 1, result := res\<rparr>))"
  using assms unfolding step_def Let_def by simp

lemma step_other:
  assumes "chars ! cursor s \<noteq> CHR ''<''" and "chars ! cursor s \<noteq> CHR ''&''"
    and "(if \<not> isLetter (chars ! cursor s) \<and> \<not> cwEmpty s
          then flushWord vt len opts (s\<lparr>cursor := Suc (cursor s), cwEmpty := True\<rparr>)
          else (True, s\<lparr>cursor := Suc (cursor s)\<rparr>)) = (ok, s1)"
  shows "step vt chars len opts s =
     (if \<not> ok then Some (Break s1)
      else Some (Continue
        (s1\<lparr>cwEmpty := (if \<not> isWhitespace (chars ! cursor s) then False else cwEmpty s1),
            cw := cw s1 @ [chars ! cursor s]\<rparr>)))"
  using assms unfolding step_def Let_def
  by (cases ok) (auto split: if_splits)

lemma closing_tag_not_Break: "closing_tag vt chars len opts s \<noteq> Break s'"
  by (auto simp: closing_tag_def Let_def split: prod.splits if_splits)

lemma step_returns: "\<exists>f. step vt chars len opts s = Some f"
proof -
  consider (lt) "chars ! cursor s = CHR ''<''" | (amp) "chars ! cursor s = CHR ''&''"
    | (other) "chars ! cursor s \<noteq> CHR ''<''" "chars ! cursor s \<noteq> CHR ''&''" by blast
  then show ?thesis
  proof cases
    case lt
    obtain ok s1 where "flushWord vt len opts (s\<lparr>cursor := Suc (cursor s)\<rparr>) = (ok, s1)"
      by (cases "flushWord vt len opts (s\<lparr>cursor := Suc (cursor s)\<rparr>)")
    from step_lt [OF lt this] show ?thesis by (auto split: prod.splits option.splits)
  next
    case amp
    obtain j res where
      "entity_loop chars (cursor s) (Suc (cursor s)) (result s @ [Text ''&'']) = (j, res)"
      by (cases "entity_loop chars (cursor s) (Suc (cursor s)) (result s @ [Text ''&''])")
    from step_amp [OF amp this] show ?thesis by simp
  next
    case other
    obtain ok s1 where "(if \<not> isLetter (chars ! cursor s) \<and> \<not> cwEmpty s
          then flushWord vt len opts (s\<lparr>cursor := Suc (cursor s), cwEmpty := True\<rparr>)
          else (True, s\<lparr>cursor := Suc (cursor s)\<rparr>)) = (ok, s1)"
      by (cases "if \<not> isLetter (chars ! cursor s) \<and> \<not> cwEmpty s
          then flushWord vt len opts (s\<lparr>cursor := Suc (cursor s), cwEmpty := True\<rparr>)
          else (True, s\<lparr>cursor := Suc (cursor s)\<rparr>)")
    from step_other [OF other this] show ?thesis by simp
  qed
qed

lemma step_extends:
  assumes "step vt chars len opts s = Some (Continue s') \<or> step vt chars len opts s = Some (Break s')"
  shows "extends vt s s'"
proof -
  consider (lt) "chars ! cursor s = CHR ''<''" | (amp) "chars ! cursor s = CHR ''&''"
    | (other) "chars ! cursor s \<noteq> CHR ''<''" "chars ! cursor s \<noteq> CHR ''&''" by blast
  then show ?thesis
  proof cases
    case lt
    obtain ok s1 where fw: "flushWord vt len opts (s\<lparr>cursor := Suc (cursor s)\<rparr>) = (ok, s1)"
      by (cases "flushWord vt len opts (s\<lparr>cursor := Suc (cursor s)\<rparr>)")
    have "extends vt s (s\<lparr>cursor := Suc (cursor s)\<rparr>)" by (simp add: extends_same)
    with flushWord_extends [OF fw] have e1: "extends vt s s1" by (blast intro: extends_trans)
    have "extends vt s1 s'"
    proof -
      obtain s2 t where ot: "openTag chars s1 = (s2, t)" by (cases "openTag chars s1")
      note fr = openTag_frame [OF ot]
      consider (brk) "\<not> ok"
        | (comment) "ok" "char_at chars (cursor s1) = Some CHR ''!''"
            "char_at chars (cursor s1 + 1) = Some CHR ''-'' \<and> char_at chars (cursor s1 + 2) = Some CHR ''-''"
        | (bang) "ok" "char_at chars (cursor s1) = Some CHR ''!''"
            "\<not> (char_at chars (cursor s1 + 1) = Some CHR ''-'' \<and> char_at chars (cursor s1 + 2) = Some CHR ''-'')"
        | (closing) "ok" "char_at chars (cursor s1) \<noteq> Some CHR ''!''"
            "char_at chars (cursor s1) = Some CHR ''/''"
        | (queued) "ok" "char_at chars (cursor s1) \<noteq> Some CHR ''!''"
            "char_at chars (cursor s1) \<noteq> Some CHR ''/''"
        by blast
      then show ?thesis
      proof cases
        case brk
        with assms show ?thesis unfolding step_lt [OF lt fw] by (simp add: extends_refl)
      next
        case comment
        with assms have "s' = s1\<lparr>cursor := cursor s1 + 4\<rparr>"
          unfolding step_lt [OF lt fw] by simp
        then show ?thesis by (simp add: extends_same)
      next
        case bang
        with assms have "s' = s1\<lparr>current := current s1 + 1, result := result s1 @ [Text ''<'']\<rparr>"
          unfolding step_lt [OF lt fw] by auto
        then show ?thesis by (intro extends_written [of _ _ "[Text ''<'']"]) simp_all
      next
        case closing
        with assms have "closing_tag vt chars len opts s1 = Continue s'"
          unfolding step_lt [OF lt fw] by (simp add: closing_tag_not_Break)
        then show ?thesis by (rule closing_tag_extends)
      next
        case queued
        with assms have "s' = s2 \<or> (\<exists>t. s' = s2\<lparr>openedQueue := openedQueue s2 @ [t]\<rparr>)"
          unfolding step_lt [OF lt fw] ot by (auto split: option.splits)
        then show ?thesis using fr by (auto intro!: extends_same)
      qed
    qed
    with e1 show ?thesis by (rule extends_trans)
  next
    case amp
    obtain j res where
      el: "entity_loop chars (cursor s) (Suc (cursor s)) (result s @ [Text ''&'']) = (j, res)"
      by (cases "entity_loop chars (cursor s) (Suc (cursor s)) (result s @ [Text ''&''])")
    from assms have s': "s' = s\<lparr>cursor := j, current := current s + 1, result := res\<rparr>"
      unfolding step_amp [OF amp el] by simp
    from entity_loop_result [OF el] show ?thesis
    proof (elim disjE exE)
      assume "res = result s @ [Text ''&'']"
      with s' show ?thesis by (intro extends_written [of _ _ "[Text ''&'']"]) simp_all
    next
      fix e
      assume "res = (result s @ [Text ''&'']) @ [Entity e]"
      with s' show ?thesis by (intro extends_written [of _ _ "[Text ''&'', Entity e]"]) simp_all
    qed
  next
    case other
    obtain ok s1 where fw: "(if \<not> isLetter (chars ! cursor s) \<and> \<not> cwEmpty s
          then flushWord vt len opts (s\<lparr>cursor := Suc (cursor s), cwEmpty := True\<rparr>)
          else (True, s\<lparr>cursor := Suc (cursor s)\<rparr>)) = (ok, s1)"
      by (cases "if \<not> isLetter (chars ! cursor s) \<and> \<not> cwEmpty s
          then flushWord vt len opts (s\<lparr>cursor := Suc (cursor s), cwEmpty := True\<rparr>)
          else (True, s\<lparr>cursor := Suc (cursor s)\<rparr>)")
    have "extends vt s (s\<lparr>cursor := Suc (cursor s), cwEmpty := True\<rparr>)"
      by (simp add: extends_same)
    moreover have "extends vt s (s\<lparr>cursor := Suc (cursor s)\<rparr>)" by (simp add: extends_same)
    ultimately have e1: "extends vt s s1"
      using fw by (auto split: if_splits dest!: flushWord_extends intro: extends_trans)
    have "extends vt s1 s'"
      using assms unfolding step_other [OF other fw]
      by (auto split: if_splits intro: extends_refl intro!: extends_same)
    with e1 show ?thesis by (rule extends_trans)
  qed
qed

subsection \<open>The main loop\<close>

lemma mainloop_stop:
  "\<not> (current s < len \<and> cursor s < length chars) \<Longrightarrow>
     mainloop vt chars len opts s = Some (Inr s)"
  by (subst mainloop.simps) auto

lemma mainloop_iterate:
  "current s < len \<Longrightarrow> cursor s < length chars \<Longrightarrow> step vt chars len opts s = Some f \<Longrightarrow>
     mainloop vt chars len opts s =
       (case f of Continue s' \<Rightarrow> mainloop vt chars len opts s'
        | Break s' \<Rightarrow> Some (Inr s') | Throw e \<Rightarrow> Some (Inl e))"
  by (subst mainloop.simps) (auto split: flow.splits)

lemma reaches_first:
  assumes "current s0 < len" and "cursor s0 < length chars"
    and "step vt chars len opts s0 = Some (Continue s1)"
    and "reaches vt chars len opts s1 s"
  shows "reaches vt chars len opts s0 s"
  using assms(4)
proof (induction rule: reaches.induct)
  case start
  show ?case using assms(1-3) by (blast intro: reaches.intros)
next
  case (iteration s s')
  then show ?case by (blast intro: reaches.intros)
qed

lemma reaches_mainloop:
  "reaches vt chars len opts s0 s \<Longrightarrow>
     mainloop vt chars len opts s = mainloop vt chars len opts s0"
proof (induction rule: reaches.induct)
  case start
  show ?case by simp
next
  case (iteration s s')
  then show ?case by (simp add: mainloop_iterate)
qed

lemma reaches_extends: "reaches vt chars len opts s0 s \<Longrightarrow> extends vt s0 s"
proof (induction rule: reaches.induct)
  case start
  show ?case by (rule extends_refl)
next
  case (iteration s s')
  then show ?case by (blast intro: extends_trans step_extends)
qed

text \<open>
  The main loop always ends, and in one of three ways: it reaches a state where its
  condition fails, or an iteration that breaks out of it, or one that throws.
\<close>

lemma mainloop_cases:
  "(\<exists>s. reaches vt chars len opts s0 s \<and> \<not> (current s < len \<and> cursor s < length chars)
        \<and> mainloop vt chars len opts s0 = Some (Inr s))
   \<or> (\<exists>s sf. reaches vt chars len opts s0 s \<and> current s < len \<and> cursor s < length chars
        \<and> step vt chars len opts s = Some (Break sf)
        \<and> mainloop vt chars len opts s0 = Some (Inr sf))
   \<or> (\<exists>s e. reaches vt chars len opts s0 s \<and> current s < len \<and> cursor s < length chars
        \<and> step vt chars len opts s = Some (Throw e)
        \<and> mainloop vt chars len opts s0 = Some (Inl e))"
proof (induction vt chars len opts s0 rule: mainloop.induct)
  case (1 vt chars len opts s0)
  show ?case
  proof (cases "current s0 < len \<and> cursor s0 < length chars")
    case False
    then have "mainloop vt chars len opts s0 = Some (Inr s0)"
      by (rule mainloop_stop)
    with False show ?thesis by (blast intro: reaches.start)
  next
    case guard: True
    from step_returns obtain f where f: "step vt chars len opts s0 = Some f" by blast
    show ?thesis
    proof (cases f)
      case (Continue s1)
      have ml: "mainloop vt chars len opts s0 = mainloop vt chars len opts s1"
        using guard f Continue by (simp add: mainloop_iterate)
      have up: "reaches vt chars len opts s1 s \<Longrightarrow> reaches vt chars len opts s0 s" for s
        using guard f Continue by (blast intro: reaches_first)
      from "1.IH" [OF guard f Continue] show ?thesis
        unfolding ml by (blast intro: up)
    next
      case (Break sf)
      then have "mainloop vt chars len opts s0 = Some (Inr sf)"
        using guard f by (simp add: mainloop_iterate)
      with guard f Break show ?thesis by (blast intro: reaches.start)
    next
      case (Throw e)
      then have "mainloop vt chars len opts s0 = Some (Inl e)"
        using guard f by (simp add: mainloop_iterate)
      with guard f Throw show ?thesis by (blast intro: reaches.start)
    qed
  qed
qed

lemma mainloop_returns: "\<exists>r. mainloop vt chars len opts s0 = Some r"
  using mainloop_cases [of vt chars len opts s0] by blast

lemma mainloop_extends:
  assumes "mainloop vt chars len opts s0 = Some (Inr sf)"
  shows "extends vt s0 sf"
  using mainloop_cases [of vt chars len opts s0] assms
  by (auto intro: reaches_extends extends_trans step_extends)

lemma mainloop_error:
  "mainloop vt chars len opts s0 = Some (Inl e) \<longleftrightarrow>
     (\<exists>s. reaches vt chars len opts s0 s \<and> current s < len \<and> cursor s < length chars
        \<and> step vt chars len opts s = Some (Throw e))"
proof
  assume "mainloop vt chars len opts s0 = Some (Inl e)"
  with mainloop_cases [of vt chars len opts s0] show "\<exists>s. reaches vt chars len opts s0 s
      \<and> current s < len \<and> cursor s < length chars \<and> step vt chars len opts s = Some (Throw e)"
    by auto
next
  assume "\<exists>s. reaches vt chars len opts s0 s \<and> current s < len \<and> cursor s < length chars
        \<and> step vt chars len opts s = Some (Throw e)"
  then obtain s where r: "reaches vt chars len opts s0 s" and g: "current s < len" "cursor s < length chars"
    and t: "step vt chars len opts s = Some (Throw e)" by blast
  have "mainloop vt chars len opts s = Some (Inl e)"
    using g t by (simp add: mainloop_iterate)
  with reaches_mainloop [OF r] show "mainloop vt chars len opts s0 = Some (Inl e)" by simp
qed

subsection \<open>The finalization\<close>

lemma tag_stack_closers: "tag_stack d vt (map Closer (rev cq)) cq = Some []"
proof (induction cq rule: rev_induct)
  case Nil
  show ?case by simp
next
  case (snoc x xs)
  then show ?case by simp
qed

lemma suffix_count_closers: "suffix_count (map Closer cq) = 0"
  by (induction cq) auto

lemma finalize_shape:
  "\<exists>s2 X. extends vt s s2 \<and> finalize vt len opts s = result s2 @ X
      \<and> tag_stack True vt X (closeQueue s2) = Some []
      \<and> suffix_count X \<le> (if suffixAdded s2 then 0 else 1)"
proof -
  define s1 where "s1 = openTags vt True s"
  obtain flushed s2 where fw: "flushWord vt len opts s1 = (flushed, s2)"
    by (cases "flushWord vt len opts s1")
  have e: "extends vt s s2"
    using openTags_extends [of vt s True] flushWord_extends [OF fw]
    unfolding s1_def by (rule extends_trans)
  let ?cl = "map Closer (rev (closeQueue s2))"
  have shape: "finalize vt len opts s =
      (if shouldEncloseSuffixInTags opts
       then (if flushed then result s2 else snd (addSuffix opts s2 (result s2))) @ ?cl
       else (if flushed then result s2 @ ?cl else snd (addSuffix opts s2 (result s2 @ ?cl))))"
    unfolding finalize_def Let_def s1_def [symmetric] fw
      getResultWithSuffixAfterClosingTags_def getResultWithSuffixBeforeClosingTags_def
    by simp
  have add: "snd (addSuffix opts s2 res) = res
      \<or> (\<not> suffixAdded s2 \<and> (\<exists>sfx. snd (addSuffix opts s2 res) = res @ [Suffix sfx]))" for res
    using addSuffix_cases [of opts s2 res "fst (addSuffix opts s2 res)" "snd (addSuffix opts s2 res)"]
    by auto
  have "\<exists>X. finalize vt len opts s = result s2 @ X
      \<and> tag_stack True vt X (closeQueue s2) = Some []
      \<and> suffix_count X \<le> (if suffixAdded s2 then 0 else 1)"
  proof (cases "shouldEncloseSuffixInTags opts")
    case True
    from add [of "result s2"] show ?thesis
    proof (elim disjE conjE exE)
      assume "snd (addSuffix opts s2 (result s2)) = result s2"
      then have "finalize vt len opts s = result s2 @ ?cl" using True shape by simp
      then show ?thesis
        by (intro exI [of _ ?cl]) (simp add: tag_stack_closers suffix_count_closers)
    next
      fix sfx
      assume n: "\<not> suffixAdded s2"
        and "snd (addSuffix opts s2 (result s2)) = result s2 @ [Suffix sfx]"
      then have "finalize vt len opts s = result s2 @ ?cl
          \<or> finalize vt len opts s = result s2 @ (Suffix sfx # ?cl)"
        using True shape by simp
      then show ?thesis
      proof
        assume "finalize vt len opts s = result s2 @ ?cl"
        then show ?thesis
          by (intro exI [of _ ?cl]) (simp add: tag_stack_closers suffix_count_closers)
      next
        assume "finalize vt len opts s = result s2 @ (Suffix sfx # ?cl)"
        then show ?thesis using n
          by (intro exI [of _ "Suffix sfx # ?cl"]) (simp add: tag_stack_closers suffix_count_closers)
      qed
    qed
  next
    case False
    from add [of "result s2 @ ?cl"] show ?thesis
    proof (elim disjE conjE exE)
      assume "snd (addSuffix opts s2 (result s2 @ ?cl)) = result s2 @ ?cl"
      then have "finalize vt len opts s = result s2 @ ?cl" using False shape by simp
      then show ?thesis
        by (intro exI [of _ ?cl]) (simp add: tag_stack_closers suffix_count_closers)
    next
      fix sfx
      assume n: "\<not> suffixAdded s2"
        and "snd (addSuffix opts s2 (result s2 @ ?cl)) = (result s2 @ ?cl) @ [Suffix sfx]"
      then have "finalize vt len opts s = result s2 @ ?cl
          \<or> finalize vt len opts s = result s2 @ (?cl @ [Suffix sfx])"
        using False shape by simp
      then show ?thesis
      proof
        assume "finalize vt len opts s = result s2 @ ?cl"
        then show ?thesis
          by (intro exI [of _ ?cl]) (simp add: tag_stack_closers suffix_count_closers)
      next
        assume "finalize vt len opts s = result s2 @ (?cl @ [Suffix sfx])"
        then show ?thesis using n
          by (intro exI [of _ "?cl @ [Suffix sfx]"])
             (simp add: tag_stack_append tag_stack_closers suffix_count_append suffix_count_closers)
      qed
    qed
  qed
  with e show ?thesis by blast
qed

lemma html_substring_pieces_cases:
  "(\<exists>e. html_substring_pieces vt source len opts = Some (Inl e)
        \<and> mainloop vt source len opts init_state = Some (Inl e))
   \<or> (\<exists>sf. html_substring_pieces vt source len opts = Some (Inr (finalize vt len opts sf))
        \<and> mainloop vt source len opts init_state = Some (Inr sf))"
  using mainloop_returns [of vt source len opts init_state]
  unfolding html_substring_pieces_def by (auto split: sum.splits)

lemma pieces_written:
  assumes "html_substring_pieces vt source len opts = Some (Inr ps)"
  shows "tag_stack True vt ps [] = Some [] \<and> suffix_count ps \<le> 1"
proof -
  from assms html_substring_pieces_cases [of vt source len opts]
  obtain sf where ml: "mainloop vt source len opts init_state = Some (Inr sf)"
    and ps: "ps = finalize vt len opts sf" by auto
  from finalize_shape [of vt sf len opts] obtain s2 X where
    e: "extends vt sf s2" and f: "finalize vt len opts sf = result s2 @ X"
    and st: "tag_stack True vt X (closeQueue s2) = Some []"
    and sc: "suffix_count X \<le> (if suffixAdded s2 then 0 else 1)" by blast
  have "extends vt init_state s2"
    using mainloop_extends [OF ml] e by (rule extends_trans)
  then have "tag_stack True vt (result s2) [] = Some (closeQueue s2)"
    and "suffix_count (result s2) = (if suffixAdded s2 then 1 else 0)"
    unfolding extends_def init_state_def by auto
  with st sc show ?thesis
    unfolding ps f by (auto simp: tag_stack_append suffix_count_append split: if_splits)
qed

subsection \<open>The error\<close>

lemma closing_tag_Throw:
  "closing_tag vt chars len opts s = Throw e \<longleftrightarrow>
     (let tag = snd (closeTag chars (Suc (cursor s)) [])
      in haveToHaveClosingTag vt tag
         \<and> ''</'' @ tag @ ''>'' \<notin> set (closeQueue (openTags vt False s))
         \<and> e = HtmlSubstringError tag (cursor s - 1))"
  unfolding closing_tag_def Let_def
  by (auto simp: popCloseQueue_eq openTags_frame split: prod.splits if_splits)

lemma step_Throw:
  "step vt chars len opts s = Some (Throw e) \<longleftrightarrow> unmatched_closing_tag vt chars len opts s e"
proof -
  consider (lt) "chars ! cursor s = CHR ''<''" | (amp) "chars ! cursor s = CHR ''&''"
    | (other) "chars ! cursor s \<noteq> CHR ''<''" "chars ! cursor s \<noteq> CHR ''&''" by blast
  then show ?thesis
  proof cases
    case lt
    obtain ok s1 where fw: "flushWord vt len opts (s\<lparr>cursor := Suc (cursor s)\<rparr>) = (ok, s1)"
      by (cases "flushWord vt len opts (s\<lparr>cursor := Suc (cursor s)\<rparr>)")
    from flushWord_frame [OF fw] have c1: "cursor s1 = Suc (cursor s)" by simp
    show ?thesis
      unfolding step_lt [OF lt fw] unmatched_closing_tag_def fw
      using lt c1
      by (auto simp: closing_tag_Throw Let_def split: prod.splits option.splits)
  next
    case amp
    obtain j res where
      el: "entity_loop chars (cursor s) (Suc (cursor s)) (result s @ [Text ''&'']) = (j, res)"
      by (cases "entity_loop chars (cursor s) (Suc (cursor s)) (result s @ [Text ''&''])")
    show ?thesis
      unfolding step_amp [OF amp el] unmatched_closing_tag_def using amp by simp
  next
    case other
    obtain ok s1 where fw: "(if \<not> isLetter (chars ! cursor s) \<and> \<not> cwEmpty s
          then flushWord vt len opts (s\<lparr>cursor := Suc (cursor s), cwEmpty := True\<rparr>)
          else (True, s\<lparr>cursor := Suc (cursor s)\<rparr>)) = (ok, s1)"
      by (cases "if \<not> isLetter (chars ! cursor s) \<and> \<not> cwEmpty s
          then flushWord vt len opts (s\<lparr>cursor := Suc (cursor s), cwEmpty := True\<rparr>)
          else (True, s\<lparr>cursor := Suc (cursor s)\<rparr>)")
    show ?thesis
      unfolding step_other [OF other fw] unmatched_closing_tag_def using other by simp
  qed
qed

subsection \<open>The string returned and its pieces\<close>

lemma html_substring_Inr:
  "html_substring vt source len options = Some (Inr out) \<Longrightarrow>
     \<exists>ps. html_substring_pieces vt source len (resolve_options options) = Some (Inr ps)
        \<and> out = render ps"
  unfolding html_substring_def by (auto split: option.splits sum.splits)

lemma entity_loop_found:
  assumes "drop i chars = name @ CHR '';'' # rest"
    and "\<forall>c \<in> set name. \<not> isWhitespace c \<and> c \<noteq> CHR '';''"
  shows "entity_loop chars offset i res =
     (i + length name + 1,
      res @ [Entity (take (i + length name + 1 - (offset + 1)) (drop (offset + 1) chars))])"
  using assms
proof (induction name arbitrary: i)
  case Nil
  then have "i < length chars" "chars ! i = CHR '';''"
    by (metis drop_eq_Nil leI list.distinct(1) append_Nil, metis append_Nil nth_via_drop)
  then show ?case by (subst entity_loop.simps) (simp add: isWhitespace_def)
next
  case (Cons c name)
  then have i: "i < length chars" "chars ! i = c"
    by (metis drop_eq_Nil leI list.distinct(1) append_Cons, metis append_Cons nth_via_drop)
  have "drop (Suc i) chars = name @ CHR '';'' # rest"
    using Cons.prems(1) by (metis append_Cons drop_Suc list.sel(3) tl_drop)
  from Cons.IH [OF this] Cons.prems(2) i show ?case
    by (subst entity_loop.simps) simp
qed

lemma finalize_extends:
  "\<exists>post. finalize vt len opts s = result s @ post"
  using finalize_shape [of vt s len opts] unfolding extends_def by auto

subsection \<open>Sources without markup\<close>

text \<open>
  What holds at the head of every iteration when the source has neither \<^verbatim>\<open><\<close> nor \<^verbatim>\<open>&\<close>:
  no tag is queued or owed, no suffix is written, the result and the word buffer together
  are the part of the source read so far, and \<open>current\<close> is the length of the result.
\<close>

definition plain_inv :: "string \<Rightarrow> int \<Rightarrow> state \<Rightarrow> bool" where
  "plain_inv source len s =
     (openedQueue s = [] \<and> closeQueue s = [] \<and> \<not> suffixAdded s
      \<and> render (result s) @ cw s = take (cursor s) source
      \<and> current s = int (length (render (result s)))
      \<and> current s \<le> len \<and> cursor s \<le> length source)"

lemma flushWord_plain:
  assumes "flushWord vt len opts s = (ok, s')" and "openedQueue s = []"
  shows "\<exists>n. n \<le> length (cw s) \<and> current s + int n \<le> max len (current s)
      \<and> s' = s\<lparr>result := result s @ (if n = 0 then [] else [Text (take n (cw s))]),
             current := current s + int n, cw := drop n (cw s)\<rparr>"
proof (cases ok)
  case False
  with assms flushWord_False [of vt len opts s s'] show ?thesis
    by (intro exI [of _ 0]) simp
next
  case True
  with assms have "flushWord vt len opts s = (True, s')" by simp
  from flushWord_True [OF this] show ?thesis
  proof (elim disjE conjE exE)
    assume "s' = s"
    then show ?thesis by (intro exI [of _ 0]) simp
  next
    fix n
    assume "0 < n" "n \<le> length (cw s)" "current s + int n \<le> len"
      and "s' = s\<lparr>openedQueue := [],
               result := result s @ opened (openedQueue s) @ [Text (take n (cw s))],
               closeQueue := closeQueue s @ closers_of vt (openedQueue s),
               current := current s + int n, cw := drop n (cw s)\<rparr>"
    then show ?thesis
      using assms(2) by (intro exI [of _ n]) (simp add: opened_simps closers_of_simps)
  qed
qed

lemma flushWord_break_ok:
  "breakWords opts \<Longrightarrow> current s < len \<Longrightarrow> flushWord vt len opts s = (ok, s') \<Longrightarrow> ok"
  by (cases "cw s") (auto simp: flushWord_def Let_def min_def split: if_splits)

lemma render_snoc_Text: "render (ps @ [Text t]) = render ps @ t"
  by (simp add: render_def)

lemma plain_step:
  assumes inv: "plain_inv source len s"
    and guard: "current s < len" "cursor s < length source"
    and plain: "source ! cursor s \<noteq> CHR ''<''" "source ! cursor s \<noteq> CHR ''&''"
    and bw: "breakWords opts"
  shows "\<exists>s'. step vt source len opts s = Some (Continue s') \<and> plain_inv source len s'"
proof -
  let ?c = "source ! cursor s"
  obtain ok s1 where fw: "(if \<not> isLetter ?c \<and> \<not> cwEmpty s
          then flushWord vt len opts (s\<lparr>cursor := Suc (cursor s), cwEmpty := True\<rparr>)
          else (True, s\<lparr>cursor := Suc (cursor s)\<rparr>)) = (ok, s1)"
    by (cases "if \<not> isLetter ?c \<and> \<not> cwEmpty s
          then flushWord vt len opts (s\<lparr>cursor := Suc (cursor s), cwEmpty := True\<rparr>)
          else (True, s\<lparr>cursor := Suc (cursor s)\<rparr>)")
  let ?t = "s\<lparr>cursor := Suc (cursor s), cwEmpty := True\<rparr>"
  have facts: "openedQueue s = []" "closeQueue s = []" "\<not> suffixAdded s"
    "render (result s) @ cw s = take (cursor s) source"
    "current s = int (length (render (result s)))"
    using inv unfolding plain_inv_def by simp_all
  have ok: ok
  proof (cases "\<not> isLetter ?c \<and> \<not> cwEmpty s")
    case True
    with fw have f: "flushWord vt len opts ?t = (ok, s1)" by simp
    have "current ?t < len" using guard(1) by simp
    from flushWord_break_ok [OF bw this f] show ?thesis .
  next
    case False
    with fw show ?thesis by auto
  qed
  have "\<exists>n. n \<le> length (cw s) \<and> current s + int n \<le> len
      \<and> result s1 = result s @ (if n = 0 then [] else [Text (take n (cw s))])
      \<and> current s1 = current s + int n \<and> cw s1 = drop n (cw s)
      \<and> cursor s1 = Suc (cursor s) \<and> openedQueue s1 = [] \<and> closeQueue s1 = []
      \<and> \<not> suffixAdded s1"
  proof (cases "\<not> isLetter ?c \<and> \<not> cwEmpty s")
    case True
    with fw have f: "flushWord vt len opts ?t = (ok, s1)" by simp
    have "openedQueue ?t = []" using facts(1) by simp
    from flushWord_plain [OF f this] obtain n where n: "n \<le> length (cw ?t)"
        "current ?t + int n \<le> max len (current ?t)"
      and s1: "s1 = ?t\<lparr>result := result ?t @ (if n = 0 then [] else [Text (take n (cw ?t))]),
             current := current ?t + int n, cw := drop n (cw ?t)\<rparr>"
      by blast
    have "current s + int n \<le> len" using n(2) guard(1) by simp
    with n(1) show ?thesis
      unfolding s1 using facts(1-3) by (intro exI [of _ n]) simp
  next
    case False
    with fw have "s1 = s\<lparr>cursor := Suc (cursor s)\<rparr>" by auto
    then show ?thesis using facts(1-3) guard(1) by (intro exI [of _ 0]) simp
  qed
  then obtain n where n: "n \<le> length (cw s)" "current s + int n \<le> len"
    and s1: "result s1 = result s @ (if n = 0 then [] else [Text (take n (cw s))])"
      "current s1 = current s + int n" "cw s1 = drop n (cw s)"
      "cursor s1 = Suc (cursor s)" "openedQueue s1 = []" "closeQueue s1 = []"
      "\<not> suffixAdded s1"
    by blast
  let ?s' = "s1\<lparr>cwEmpty := (if \<not> isWhitespace ?c then False else cwEmpty s1),
               cw := cw s1 @ [?c]\<rparr>"
  have st: "step vt source len opts s = Some (Continue ?s')"
    using step_other [OF plain fw] ok by simp
  have r1: "render (result s1) = render (result s) @ take n (cw s)"
    unfolding s1 by (simp add: render_def)
  have "render (result s1) @ cw s1 @ [?c] = (render (result s) @ cw s) @ [?c]"
    unfolding s1 by (simp add: render_def)
  then have a: "render (result s1) @ cw s1 @ [?c] = take (Suc (cursor s)) source"
    unfolding facts(4) using guard(2) by (simp add: take_Suc_conv_app_nth)
  have b: "current s1 = int (length (render (result s1)))"
    using n(1) unfolding r1 s1(2) facts(5) by simp
  have "plain_inv source len ?s'"
    unfolding plain_inv_def using a b s1(4-7) n(2) s1(2) guard(2) by simp
  with st show ?thesis by blast
qed

lemma plain_reaches:
  assumes "reaches vt source len opts init_state s"
    and "CHR ''<'' \<notin> set source" and "CHR ''&'' \<notin> set source"
    and "0 \<le> len" and "breakWords opts"
  shows "plain_inv source len s"
  using assms(1)
proof (induction rule: reaches.induct)
  case start
  show ?case using assms(4) by (simp add: plain_inv_def init_state_def render_def)
next
  case (iteration s s')
  have "source ! cursor s \<noteq> CHR ''<''" "source ! cursor s \<noteq> CHR ''&''"
    using iteration.hyps(3) assms(2,3) by (metis nth_mem)+
  from plain_step [OF iteration.IH iteration.hyps(2,3) this assms(5), of vt]
    iteration.hyps(4)
  show ?case by auto
qed

lemma flushWord_break_plain:
  assumes "breakWords opts" and "openedQueue s = []" and "current s \<le> len"
  shows "flushWord vt len opts s =
     (cw s = [] \<or> current s < len,
      s\<lparr>result := result s @
            (if cw s = [] \<or> len \<le> current s then []
             else [Text (take (nat (len - current s)) (cw s))]),
        current := min len (current s + int (length (cw s))),
        cw := drop (nat (len - current s)) (cw s)\<rparr>)"
proof -
  consider (empty) "cw s = []" | (full) "cw s \<noteq> []" "current s = len"
    | (room) "cw s \<noteq> []" "current s < len"
    using assms(3) by fastforce
  then show ?thesis
  proof cases
    case empty
    then show ?thesis using assms by (simp add: flushWord_def min_def)
  next
    case full
    then show ?thesis using assms by (simp add: flushWord_def Let_def)
  next
    case room
    define n where "n = min (len - current s) (int (length (cw s)))"
    have n: "0 < n" "max n 0 = n" using room unfolding n_def by auto
    have tk: "take (nat n) (cw s) = take (nat (len - current s)) (cw s)"
      "drop (nat n) (cw s) = drop (nat (len - current s)) (cw s)"
      "current s + n = min len (current s + int (length (cw s)))"
      unfolding n_def by (auto simp: min_def)
    have "flushWord vt len opts s =
        (True, s\<lparr>result := result s @ [Text (take (nat n) (cw s))],
                 current := current s + n, cw := drop (nat n) (cw s)\<rparr>)"
      using assms(1) room n unfolding flushWord_def Let_def n_def [symmetric]
      by (simp add: openTags_Nil [OF assms(2)])
    then show ?thesis using room unfolding tk by simp
  qed
qed

text \<open>
  For a source without \<^verbatim>\<open><\<close> and \<^verbatim>\<open>&\<close>, a length that is not negative and
  \<^verbatim>\<open>breakWords\<close> true, the string returned is the prefix of the source of the length asked
  for (the whole source if it is shorter), followed by the suffix or by nothing; the suffix
  follows only when the source is longer than the length.
\<close>

lemma plain_text_prefix:
  assumes "CHR ''<'' \<notin> set source" and "CHR ''&'' \<notin> set source"
    and "0 \<le> len" and "breakWords (resolve_options options)"
  shows "\<exists>sfx. html_substring vt source len options = Some (Inr (take (nat len) source @ sfx))
      \<and> (sfx = [] \<or> (suffix (resolve_options options) = Some sfx \<and> len < int (length source)))"
proof -
  let ?opts = "resolve_options options"
  note inv = plain_reaches [OF _ assms(1-3) assms(4), of vt]
  have no_lt: "source ! cursor s \<noteq> CHR ''<''" "source ! cursor s \<noteq> CHR ''&''"
    if "cursor s < length source" for s :: state
    using that assms(1,2) by (metis nth_mem)+
  have cont: "\<exists>s'. step vt source len ?opts s = Some (Continue s')"
    if "reaches vt source len ?opts init_state s" "current s < len" "cursor s < length source"
    for s
    using plain_step [OF inv [OF that(1)] that(2,3) no_lt [OF that(3)] assms(4), of vt] by blast
  from mainloop_cases [of vt source len ?opts init_state] cont
  obtain s where r: "reaches vt source len ?opts init_state s"
    and stop: "\<not> (current s < len \<and> cursor s < length source)"
    and ml: "mainloop vt source len ?opts init_state = Some (Inr s)"
    by fastforce
  from inv [OF r] have facts: "openedQueue s = []" "closeQueue s = []" "\<not> suffixAdded s"
    "render (result s) @ cw s = take (cursor s) source"
    "current s = int (length (render (result s)))"
    "current s \<le> len" "cursor s \<le> length source"
    unfolding plain_inv_def by simp_all
  let ?R = "render (result s)"
  let ?L = "nat len"
  let ?flushed = "cw s = [] \<or> current s < len"
  let ?s2 = "s\<lparr>result := result s @
            (if cw s = [] \<or> len \<le> current s then []
             else [Text (take (nat (len - current s)) (cw s))]),
        current := min len (current s + int (length (cw s))),
        cw := drop (nat (len - current s)) (cw s)\<rparr>"
  have fw: "flushWord vt len ?opts s = (?flushed, ?s2)"
    by (rule flushWord_break_plain [OF assms(4) facts(1,6)])
  have fin: "finalize vt len ?opts s =
      (if ?flushed then result ?s2 else snd (addSuffix ?opts ?s2 (result ?s2)))"
    unfolding finalize_def Let_def openTags_Nil [OF facts(1)] fw
      getResultWithSuffixAfterClosingTags_def getResultWithSuffixBeforeClosingTags_def
    using facts(2) by simp
  have r2: "render (result ?s2) = ?R @ take (?L - length ?R) (cw s)"
  proof (cases "cw s = [] \<or> len \<le> current s")
    case True
    then show ?thesis using facts(5,6) by (auto simp: render_def)
  next
    case False
    have "nat (len - current s) = ?L - length ?R" using facts(5,6) by simp
    with False show ?thesis by (simp add: render_def)
  qed
  have "take ?L source = take ?L (take (cursor s) source)"
  proof (cases "cursor s < length source")
    case True
    with stop facts(6) have "current s = len" by simp
    then have "?L = length ?R" using facts(5) by simp
    also have "\<dots> \<le> length (take (cursor s) source)"
      unfolding facts(4) [symmetric] by simp
    finally have "?L \<le> cursor s" by simp
    then show ?thesis by (simp add: min_def)
  next
    case False
    with facts(7) show ?thesis by simp
  qed
  also have "\<dots> = take ?L (?R @ cw s)" unfolding facts(4) ..
  also have "\<dots> = ?R @ take (?L - length ?R) (cw s)"
    using facts(5,6) by simp
  finally have body: "render (result ?s2) = take ?L source" unfolding r2 ..
  have out: "html_substring vt source len options = Some (Inr (render (finalize vt len ?opts s)))"
    unfolding html_substring_def html_substring_pieces_def ml by simp
  show ?thesis
  proof (cases "?flushed \<or> suffix ?opts = None")
    case True
    then have "finalize vt len ?opts s = result ?s2"
      unfolding fin by (auto simp: addSuffix_def)
    then show ?thesis unfolding out using body by (intro exI [of _ "[]"]) simp
  next
    case False
    then obtain sfx where sfx: "suffix ?opts = Some sfx" by auto
    from False have nf: "cw s \<noteq> []" "len \<le> current s" by auto
    have "finalize vt len ?opts s = result ?s2 @ [Suffix sfx]"
      unfolding fin using False sfx facts(3) by (simp add: addSuffix_def)
    then have o: "render (finalize vt len ?opts s) = take ?L source @ sfx"
      using body by (simp add: render_def)
    have "length (take (cursor s) source) = length ?R + length (cw s)"
      unfolding facts(4) [symmetric] by simp
    then have "int (cursor s) = current s + int (length (cw s))"
      using facts(5,7) by simp
    with nf facts(7) have "len < int (length source)" by (cases "cw s") auto
    with sfx o show ?thesis unfolding out by (intro exI [of _ sfx]) simp
  qed
qed

text \<open>
  What holds in addition at the head of every iteration when \<^verbatim>\<open>breakWords\<close> is false: the
  result ends where a word buffer was closed (it is empty or the source goes on with a
  character that is not a letter); the word buffer is empty only before the first
  character is read; \<open>cwEmpty\<close> says that the buffer holds whitespace only; and no buffer
  was closed between the end of the result and the position.
\<close>

definition whole_words_inv :: "string \<Rightarrow> int \<Rightarrow> state \<Rightarrow> bool" where
  "whole_words_inv source len s =
     (plain_inv source len s
      \<and> (length (render (result s)) = 0 \<or> \<not> isLetter (source ! length (render (result s))))
      \<and> (cw s = [] \<longrightarrow> cursor s = 0)
      \<and> cwEmpty s = (\<forall>c \<in> set (cw s). isWhitespace c)
      \<and> (\<forall>j. length (render (result s)) < j \<and> j < cursor s \<longrightarrow>
            \<not> closes_word source (length (render (result s))) j))"

lemma flushWord_whole_plain:
  assumes "\<not> breakWords opts" and "openedQueue s = []"
  shows "flushWord vt len opts s =
     (if cw s = [] then (True, s)
      else if current s + int (length (cw s)) \<le> len then
        (True, s\<lparr>result := result s @ [Text (cw s)],
                 current := current s + int (length (cw s)), cw := []\<rparr>)
      else (False, s))"
  using assms by (simp add: flushWord_def Let_def openTags_Nil)

lemma letter_not_whitespace: "isLetter c \<Longrightarrow> \<not> isWhitespace c"
  by (auto simp: isLetter_def isWhitespace_def Let_def)

lemma pending_stretch:
  assumes "R @ w = take n source" and "j \<le> n"
  shows "drop (length R) (take j source) = take (j - length R) w"
proof -
  have "take j source = take j (take n source)" using assms(2) by (simp add: min_def)
  also have "\<dots> = take j (R @ w)" unfolding assms(1) ..
  finally show ?thesis by (cases "length R \<le> j") (auto simp: min_def)
qed

lemma whole_words_step:
  assumes inv: "whole_words_inv source len s"
    and guard: "current s < len" "cursor s < length source"
    and plain: "source ! cursor s \<noteq> CHR ''<''" "source ! cursor s \<noteq> CHR ''&''"
    and bw: "\<not> breakWords opts"
  shows "(\<exists>s'. step vt source len opts s = Some (Continue s') \<and> whole_words_inv source len s')
     \<or> (step vt source len opts s = Some (Break (s\<lparr>cursor := Suc (cursor s), cwEmpty := True\<rparr>))
        \<and> cw s \<noteq> [] \<and> len < current s + int (length (cw s)))"
proof -
  let ?c = "source ! cursor s"
  let ?t = "s\<lparr>cursor := Suc (cursor s), cwEmpty := True\<rparr>"
  let ?R = "render (result s)"
  have facts: "openedQueue s = []" "closeQueue s = []" "\<not> suffixAdded s"
    "?R @ cw s = take (cursor s) source"
    "current s = int (length ?R)" "current s \<le> len"
    "length ?R = 0 \<or> \<not> isLetter (source ! length ?R)"
    "cw s = [] \<longrightarrow> cursor s = 0"
    using inv unfolding whole_words_inv_def plain_inv_def by simp_all
  have ws: "cwEmpty s = (\<forall>c \<in> set (cw s). isWhitespace c)"
    and passed: "\<And>j. length ?R < j \<Longrightarrow> j < cursor s \<Longrightarrow> \<not> closes_word source (length ?R) j"
    using inv unfolding whole_words_inv_def by simp_all
  have next_char: "take (Suc (cursor s)) source = (?R @ cw s) @ [?c]"
    unfolding facts(4) using guard(2) by (simp add: take_Suc_conv_app_nth)
  have cur: "length ?R + length (cw s) = cursor s"
    using arg_cong [OF facts(4), of length] guard(2) by simp
  have here: "drop (length ?R) (take (cursor s) source) = cw s"
    using pending_stretch [OF facts(4) order_refl] cur by simp
  consider (keep) "\<not> (\<not> isLetter ?c \<and> \<not> cwEmpty s)"
    | (flush) "\<not> isLetter ?c" "\<not> cwEmpty s" "cw s \<noteq> []"
        "current s + int (length (cw s)) \<le> len"
    | (drop) "\<not> isLetter ?c" "\<not> cwEmpty s" "cw s \<noteq> []"
        "len < current s + int (length (cw s))"
    using ws by fastforce
  then show ?thesis
  proof cases
    case keep
    define s1 where "s1 = s\<lparr>cursor := Suc (cursor s)\<rparr>"
    have fw: "(if \<not> isLetter ?c \<and> \<not> cwEmpty s
          then flushWord vt len opts ?t
          else (True, s\<lparr>cursor := Suc (cursor s)\<rparr>)) = (True, s1)"
      using keep unfolding s1_def by auto
    let ?s' = "s1\<lparr>cwEmpty := (if \<not> isWhitespace ?c then False else cwEmpty s1),
               cw := cw s1 @ [?c]\<rparr>"
    have st: "step vt source len opts s = Some (Continue ?s')"
      using step_other [OF plain fw] by simp
    have a: "cwEmpty ?s' = (\<forall>c \<in> set (cw ?s'). isWhitespace c)"
      using ws keep letter_not_whitespace [of ?c] unfolding s1_def by auto
    have b: "\<not> closes_word source (length ?R) j" if "length ?R < j" "j < Suc (cursor s)" for j
    proof (cases "j = cursor s")
      case True
      with keep ws here guard(2) show ?thesis
        unfolding closes_word_def by (auto simp: list_ex_iff)
    next
      case False
      with that passed show ?thesis by simp
    qed
    have "whole_words_inv source len ?s'"
      unfolding whole_words_inv_def plain_inv_def
      using facts next_char guard(2) a b unfolding s1_def by auto
    with st show ?thesis by blast
  next
    case flush
    define s1 where "s1 = ?t\<lparr>result := result s @ [Text (cw s)],
                 current := current s + int (length (cw s)), cw := []\<rparr>"
    have fw: "(if \<not> isLetter ?c \<and> \<not> cwEmpty s
          then flushWord vt len opts ?t
          else (True, s\<lparr>cursor := Suc (cursor s)\<rparr>)) = (True, s1)"
      using flush facts(1) unfolding s1_def
      by (simp add: flushWord_whole_plain [OF bw])
    let ?s' = "s1\<lparr>cwEmpty := (if \<not> isWhitespace ?c then False else cwEmpty s1),
               cw := cw s1 @ [?c]\<rparr>"
    have st: "step vt source len opts s = Some (Continue ?s')"
      using step_other [OF plain fw] by simp
    have r: "render (result s @ [Text (cw s)]) = ?R @ cw s" by (simp add: render_def)
    have "whole_words_inv source len ?s'"
      unfolding whole_words_inv_def plain_inv_def s1_def
      using facts(1-3,5) next_char guard(2) flush(1,4) cur
      by (auto simp: r)
    with st show ?thesis by blast
  next
    case drop
    have fw: "(if \<not> isLetter ?c \<and> \<not> cwEmpty s
          then flushWord vt len opts ?t
          else (True, s\<lparr>cursor := Suc (cursor s)\<rparr>)) = (False, ?t)"
      using drop facts(1) by (simp add: flushWord_whole_plain [OF bw])
    have "step vt source len opts s = Some (Break ?t)"
      using step_other [OF plain fw] by simp
    with drop show ?thesis by blast
  qed
qed

lemma whole_words_reaches:
  assumes "reaches vt source len opts init_state s"
    and "CHR ''<'' \<notin> set source" and "CHR ''&'' \<notin> set source"
    and "0 \<le> len" and "\<not> breakWords opts"
  shows "whole_words_inv source len s"
  using assms(1)
proof (induction rule: reaches.induct)
  case start
  show ?case using assms(4)
    by (simp add: whole_words_inv_def plain_inv_def init_state_def render_def)
next
  case (iteration s s')
  have "source ! cursor s \<noteq> CHR ''<''" "source ! cursor s \<noteq> CHR ''&''"
    using iteration.hyps(3) assms(2,3) by (metis nth_mem)+
  from whole_words_step [OF iteration.IH iteration.hyps(2,3) this assms(5), of vt]
    iteration.hyps(4)
  show ?case by auto
qed

text \<open>
  For a source without \<^verbatim>\<open><\<close> and \<^verbatim>\<open>&\<close>, a length that is not negative and
  \<^verbatim>\<open>breakWords\<close> false, the string returned is a prefix of the source of at most the
  length asked for that does not end inside a run of letters, followed by the suffix or by
  nothing; and no word buffer that is closed within the length asked for is left out.
\<close>

lemma plain_text_whole_words:
  assumes "CHR ''<'' \<notin> set source" and "CHR ''&'' \<notin> set source"
    and "0 \<le> len" and "\<not> breakWords (resolve_options options)"
  shows "\<exists>k sfx. html_substring vt source len options = Some (Inr (take k source @ sfx))
      \<and> int k \<le> len \<and> k \<le> length source
      \<and> (k = 0 \<or> k = length source \<or> \<not> isLetter (source ! k))
      \<and> (\<forall>j. k < j \<and> j \<le> length source \<and> int j \<le> len \<longrightarrow> \<not> closes_word source k j)
      \<and> (sfx = [] \<or> (suffix (resolve_options options) = Some sfx \<and> len < int (length source)))"
proof -
  let ?opts = "resolve_options options"
  note inv = whole_words_reaches [OF _ assms(1-3) assms(4), of vt]
  have no_lt: "source ! cursor s \<noteq> CHR ''<''" "source ! cursor s \<noteq> CHR ''&''"
    if "cursor s < length source" for s :: state
    using that assms(1,2) by (metis nth_mem)+
  have "\<exists>s sf. whole_words_inv source len s
      \<and> mainloop vt source len ?opts init_state = Some (Inr sf)
      \<and> result sf = result s \<and> cw sf = cw s \<and> current sf = current s
      \<and> openedQueue sf = openedQueue s \<and> closeQueue sf = closeQueue s
      \<and> suffixAdded sf = suffixAdded s
      \<and> ((sf = s \<and> \<not> (current s < len \<and> cursor s < length source))
          \<or> (cw s \<noteq> [] \<and> len < current s + int (length (cw s))))"
    using mainloop_cases [of vt source len ?opts init_state]
  proof (elim disjE exE conjE)
    fix s
    assume "reaches vt source len ?opts init_state s"
      "\<not> (current s < len \<and> cursor s < length source)"
      "mainloop vt source len ?opts init_state = Some (Inr s)"
    with inv [of s] show ?thesis by blast
  next
    fix s sf
    assume r: "reaches vt source len ?opts init_state s"
      and g: "current s < len" "cursor s < length source"
      and b: "step vt source len ?opts s = Some (Break sf)"
      and ml: "mainloop vt source len ?opts init_state = Some (Inr sf)"
    from whole_words_step [OF inv [OF r] g no_lt [OF g(2)] assms(4), of vt] b
    have "sf = s\<lparr>cursor := Suc (cursor s), cwEmpty := True\<rparr>"
      "cw s \<noteq> []" "len < current s + int (length (cw s))" by auto
    with inv [OF r] ml show ?thesis by (intro exI [of _ s] exI [of _ sf]) simp
  next
    fix s e
    assume r: "reaches vt source len ?opts init_state s"
      and g: "current s < len" "cursor s < length source"
      and b: "step vt source len ?opts s = Some (Throw e)"
    from whole_words_step [OF inv [OF r] g no_lt [OF g(2)] assms(4), of vt] b
    show ?thesis by auto
  qed
  then obtain s sf where i: "whole_words_inv source len s"
    and ml: "mainloop vt source len ?opts init_state = Some (Inr sf)"
    and same: "result sf = result s" "cw sf = cw s" "current sf = current s"
      "openedQueue sf = openedQueue s" "closeQueue sf = closeQueue s"
      "suffixAdded sf = suffixAdded s"
    and how: "(sf = s \<and> \<not> (current s < len \<and> cursor s < length source))
          \<or> (cw s \<noteq> [] \<and> len < current s + int (length (cw s)))"
    by blast
  let ?R = "render (result s)"
  have facts: "openedQueue s = []" "closeQueue s = []" "\<not> suffixAdded s"
    "?R @ cw s = take (cursor s) source"
    "current s = int (length ?R)" "current s \<le> len" "cursor s \<le> length source"
    "length ?R = 0 \<or> \<not> isLetter (source ! length ?R)"
    "cw s = [] \<longrightarrow> cursor s = 0"
    using i unfolding whole_words_inv_def plain_inv_def by simp_all
  have passed: "\<And>j. length ?R < j \<Longrightarrow> j < cursor s \<Longrightarrow> \<not> closes_word source (length ?R) j"
    using i unfolding whole_words_inv_def by simp
  have queues: "openedQueue sf = []" "closeQueue sf = []" "\<not> suffixAdded sf"
    using same(4-6) facts(1-3) by simp_all
  have cur: "length ?R + length (cw s) = cursor s"
    using arg_cong [OF facts(4), of length] facts(7) by simp
  have R: "?R = take (length ?R) source"
    using arg_cong [OF facts(4), of "take (length ?R)"] cur by (simp add: min_def)
  have out: "html_substring vt source len options = Some (Inr (render (finalize vt len ?opts sf)))"
    unfolding html_substring_def html_substring_pieces_def ml by simp
  have fw: "flushWord vt len ?opts sf =
     (if cw s = [] then (True, sf)
      else if current s + int (length (cw s)) \<le> len then
        (True, sf\<lparr>result := result s @ [Text (cw s)],
                 current := current s + int (length (cw s)), cw := []\<rparr>)
      else (False, sf))"
    using flushWord_whole_plain [OF assms(4) queues(1), where vt = vt and len = len] same(1-3)
    by simp
  have fin: "finalize vt len ?opts sf =
      (if cw s = [] then result s
       else if current s + int (length (cw s)) \<le> len then result s @ [Text (cw s)]
       else snd (addSuffix ?opts sf (result s)))"
    unfolding finalize_def Let_def openTags_Nil [OF queues(1)] fw
      getResultWithSuffixAfterClosingTags_def getResultWithSuffixBeforeClosingTags_def
    using queues(2) same(1) by simp
  consider (empty) "cw s = []"
    | (fits) "cw s \<noteq> []" "current s + int (length (cw s)) \<le> len"
    | (dropped) "cw s \<noteq> []" "len < current s + int (length (cw s))"
    by fastforce
  then show ?thesis
  proof cases
    case empty
    with facts(9) cur have e: "?R = []" "cursor s = 0" by simp_all
    from empty how have "\<not> (current s < len \<and> cursor s < length source)" by simp
    with e facts(5) have "len \<le> 0 \<or> length source = 0" by auto
    then have "\<forall>j. 0 < j \<and> j \<le> length source \<and> int j \<le> len \<longrightarrow> \<not> closes_word source 0 j"
      by auto
    with empty e show ?thesis
      unfolding out fin using assms(3) by (intro exI [of _ 0] exI [of _ "[]"]) simp
  next
    case fits
    with how have stop: "\<not> (current s < len \<and> cursor s < length source)" by auto
    have "cursor s = length source"
    proof (rule ccontr)
      assume "cursor s \<noteq> length source"
      with facts(7) stop have "len \<le> current s" by simp
      with fits show False by (cases "cw s") auto
    qed
    moreover have "render (finalize vt len ?opts sf) = take (cursor s) source"
      unfolding fin using fits facts(4) by (simp add: render_def)
    moreover have "int (cursor s) \<le> len" using fits(2) facts(5) cur by simp
    ultimately show ?thesis
      unfolding out by (intro exI [of _ "length source"] exI [of _ "[]"]) auto
  next
    case dropped
    have longer: "len < int (length source)" using dropped(2) facts(5,7) cur by simp
    have k: "int (length ?R) \<le> len" "length ?R \<le> length source"
      using facts(5,6,7) cur by simp_all
    have beyond: "len < int (cursor s)" using dropped(2) facts(5) cur by simp
    have most: "\<forall>j. length ?R < j \<and> j \<le> length source \<and> int j \<le> len
        \<longrightarrow> \<not> closes_word source (length ?R) j"
      using passed beyond by auto
    have "snd (addSuffix ?opts sf (result s)) = result s
        \<or> (\<exists>sfx. suffix ?opts = Some sfx \<and> snd (addSuffix ?opts sf (result s)) = result s @ [Suffix sfx])"
      by (auto simp: addSuffix_def split: option.splits)
    then show ?thesis
    proof (elim disjE exE conjE)
      assume "snd (addSuffix ?opts sf (result s)) = result s"
      then have "render (finalize vt len ?opts sf) = take (length ?R) source @ []"
        unfolding fin using dropped R by simp
      with k facts(8) most show ?thesis
        unfolding out by (intro exI [of _ "length ?R"] exI [of _ "[]"]) auto
    next
      fix sfx
      assume sfx: "suffix ?opts = Some sfx"
        and "snd (addSuffix ?opts sf (result s)) = result s @ [Suffix sfx]"
      then have "render (finalize vt len ?opts sf) = take (length ?R) source @ sfx"
        unfolding fin using dropped R by (simp add: render_def)
      with k facts(8) sfx longer most show ?thesis
        unfolding out by (intro exI [of _ "length ?R"] exI [of _ sfx]) auto
    qed
  qed
qed

subsection \<open>The tags of the string returned\<close>

text \<open>
  For a source whose markup is tags, every piece the program writes is well formed: a text
  or a suffix without \<^verbatim>\<open><\<close>, an opening tag with a name of letters and digits and no
  \<^verbatim>\<open>>\<close> inside, a closing tag with no \<^verbatim>\<open>>\<close> in its name. The tags read off the
  concatenation of such pieces are the tags among the pieces, one for one.
\<close>

definition alnum :: "char \<Rightarrow> bool" where
  "alnum c = (isLetter c \<or> isNumber c)"

lemma alnum_not_markup: "alnum c \<Longrightarrow> c \<noteq> CHR ''>'' \<and> c \<noteq> CHR ''/'' \<and> c \<noteq> CHR ''<''"
  by (auto simp: alnum_def isLetter_def isNumber_def)

definition wf_tag :: "string \<times> string \<Rightarrow> bool" where
  "wf_tag p =
     (case p of (tag, other) \<Rightarrow>
        tag \<noteq> [] \<and> (\<forall>c \<in> set tag. alnum c) \<and> CHR ''>'' \<notin> set other
        \<and> (other = [] \<or> \<not> alnum (hd other)))"

definition wf_closer :: "string list \<Rightarrow> string \<Rightarrow> bool" where
  "wf_closer vt c =
     (\<exists>t. c = ''</'' @ t @ ''>'' \<and> CHR ''>'' \<notin> set t \<and> haveToHaveClosingTag vt t)"

fun wf_piece :: "string list \<Rightarrow> piece \<Rightarrow> bool" where
  "wf_piece vt (Text t) = (CHR ''<'' \<notin> set t)"
| "wf_piece vt (Entity t) = (CHR ''<'' \<notin> set t)"
| "wf_piece vt (Suffix t) = (CHR ''<'' \<notin> set t)"
| "wf_piece vt (OpenTag tag other) = wf_tag (tag, other)"
| "wf_piece vt (CloseTag tag) = (CHR ''>'' \<notin> set tag)"
| "wf_piece vt (Closer c) = wf_closer vt c"


lemma read_text: "CHR ''<'' \<notin> set t \<Longrightarrow> read_tags Outside (t @ rest) = read_tags Outside rest"
  by (induction t) auto







text \<open>
  \<open>tidy vt s\<close>: what is written, buffered, queued and owed in the state \<open>s\<close> is well
  formed. It holds at the head of every iteration on a source whose markup is tags.
\<close>

definition tidy :: "string list \<Rightarrow> state \<Rightarrow> bool" where
  "tidy vt s =
     ((\<forall>p \<in> set (result s). wf_piece vt p) \<and> CHR ''<'' \<notin> set (cw s)
      \<and> (\<forall>q \<in> set (openedQueue s). wf_tag q) \<and> (\<forall>c \<in> set (closeQueue s). wf_closer vt c))"

lemma wf_opened: "\<forall>q \<in> set qs. wf_tag q \<Longrightarrow> \<forall>p \<in> set (opened qs). wf_piece vt p"
  by (auto simp: opened_def)

lemma wf_closers_of: "\<forall>q \<in> set qs. wf_tag q \<Longrightarrow> \<forall>c \<in> set (closers_of vt qs). wf_closer vt c"
  unfolding closers_of_def wf_closer_def wf_tag_def closable_def haveToHaveClosingTag_def
  using alnum_not_markup by fastforce

lemma openTags_tidy:
  assumes "tidy vt s"
  shows "tidy vt (openTags vt b s)"
proof -
  obtain n where "openTags vt b s =
       s\<lparr>openedQueue := drop n (openedQueue s),
         result := result s @ opened (take n (openedQueue s)),
         closeQueue := closeQueue s @ closers_of vt (take n (openedQueue s))\<rparr>"
    using openTags_effect [of s vt b] by blast
  moreover have "\<forall>q \<in> set (take n (openedQueue s)). wf_tag q"
    "\<forall>q \<in> set (drop n (openedQueue s)). wf_tag q"
    using assms unfolding tidy_def by (auto dest: in_set_takeD in_set_dropD)
  ultimately show ?thesis
    using assms wf_opened [of "take n (openedQueue s)" vt]
      wf_closers_of [of "take n (openedQueue s)" vt]
    unfolding tidy_def by auto
qed

lemma flushWord_tidy:
  assumes "flushWord vt len opts s = (ok, s')" and "tidy vt s"
  shows "tidy vt s'"
proof (cases ok)
  case False
  with assms flushWord_False [of vt len opts s s'] show ?thesis by simp
next
  case True
  with assms have "flushWord vt len opts s = (True, s')" by simp
  from flushWord_True [OF this] show ?thesis
  proof (elim disjE conjE exE)
    assume "s' = s"
    with assms(2) show ?thesis by simp
  next
    fix n
    assume s': "s' = s\<lparr>openedQueue := [],
               result := result s @ opened (openedQueue s) @ [Text (take n (cw s))],
               closeQueue := closeQueue s @ closers_of vt (openedQueue s),
               current := current s + int n, cw := drop n (cw s)\<rparr>"
    have q: "\<forall>q \<in> set (openedQueue s). wf_tag q" using assms(2) unfolding tidy_def by simp
    show ?thesis
      unfolding s' tidy_def
      using assms(2) wf_opened [OF q, of vt] wf_closers_of [OF q, of vt]
      unfolding tidy_def by (auto dest: in_set_takeD in_set_dropD)
  qed
qed

lemma closeTag_no_gt:
  "closeTag chars i acc = (j, t) \<Longrightarrow> CHR ''>'' \<notin> set acc \<Longrightarrow> CHR ''>'' \<notin> set t"
proof (induction chars i acc rule: closeTag.induct)
  case (1 chars i tag)
  then show ?case
    by (subst (asm) (2) closeTag.simps) (auto simp: Let_def split: if_splits)
qed

lemma set_tl_subset: "x \<in> set (tl xs) \<Longrightarrow> x \<in> set xs"
  by (cases xs) auto

lemma popCloseQueue_subset: "x \<in> set (snd (popCloseQueue w cq)) \<Longrightarrow> x \<in> set cq"
  unfolding popCloseQueue_eq by (auto dest!: set_tl_subset set_dropWhileD)

lemma closing_tag_tidy:
  assumes "closing_tag vt chars len opts s = Continue s'" and "tidy vt s"
    and "suffix_is_text opts"
  shows "tidy vt s'"
proof -
  define s1 where "s1 = openTags vt False s"
  have t1: "tidy vt s1" unfolding s1_def using assms(2) by (rule openTags_tidy)
  obtain j tag where ct: "closeTag chars (Suc (cursor s1)) [] = (j, tag)"
    by (cases "closeTag chars (Suc (cursor s1)) []")
  from closeTag_no_gt [OF ct] have tag: "CHR ''>'' \<notin> set tag" by simp
  define cq where "cq = (if haveToHaveClosingTag vt tag
      then snd (popCloseQueue (''</'' @ tag @ ''>'') (closeQueue s1))
      else closeQueue s1)"
  have cq: "\<forall>c \<in> set cq. wf_closer vt c"
    using t1 unfolding cq_def tidy_def by (auto dest: popCloseQueue_subset)
  define s3 where "s3 = s1\<lparr>cursor := j, closeQueue := cq\<rparr>"
  obtain s4 res where as: "(if len \<le> current s3 \<and> shouldEncloseSuffixInTags opts
      then addSuffix opts s3 (result s3) else (s3, result s3)) = (s4, res)"
    by (cases "if len \<le> current s3 \<and> shouldEncloseSuffixInTags opts
      then addSuffix opts s3 (result s3) else (s3, result s3)")
  from assms(1) have s': "s' = s4\<lparr>result := res @ [CloseTag tag]\<rparr>"
    using as unfolding closing_tag_def Let_def s1_def [symmetric] ct s3_def cq_def
    by (auto split: if_splits prod.splits)
  have "(s4 = s3 \<and> res = result s3) \<or>
     (\<not> suffixAdded s3 \<and> s4 = s3\<lparr>suffixAdded := True\<rparr> \<and>
        (\<exists>sfx. suffix opts = Some sfx \<and> res = result s3 @ [Suffix sfx]))"
    using as addSuffix_cases [of opts s3 "result s3" s4 res] by (auto split: if_splits)
  then show ?thesis
  proof (elim disjE conjE exE)
    assume "s4 = s3" "res = result s3"
    then show ?thesis
      unfolding s' s3_def tidy_def using t1 cq tag unfolding tidy_def by simp
  next
    fix sfx
    assume "s4 = s3\<lparr>suffixAdded := True\<rparr>" "suffix opts = Some sfx" "res = result s3 @ [Suffix sfx]"
    then show ?thesis
      unfolding s' s3_def tidy_def using t1 cq tag assms(3) unfolding tidy_def suffix_is_text_def
      by simp
  qed
qed

lemma openTag_name_result:
  "openTag_name chars i acc c = (j, t, c') \<Longrightarrow> \<forall>x \<in> set acc. alnum x \<Longrightarrow>
     (\<forall>x \<in> set t. alnum x) \<and> (j < length chars \<longrightarrow> (\<exists>ch. c' = Some ch \<and> \<not> alnum ch))"
proof (induction chars i acc c rule: openTag_name.induct)
  case (1 chars i tag c)
  then show ?case
    by (subst (asm) (2) openTag_name.simps) (auto simp: Let_def alnum_def split: if_splits)
qed

lemma openTag_other_result:
  "openTag_other chars i acc c = (j, t, c') \<Longrightarrow> CHR ''>'' \<notin> set acc \<Longrightarrow>
     CHR ''>'' \<notin> set t \<and> (\<exists>r. t = acc @ r)"
proof (induction chars i acc c rule: openTag_other.induct)
  case (1 chars i other c)
  then show ?case
    by (subst (asm) (2) openTag_other.simps) (auto simp: Let_def split: if_splits)
qed

lemma openTag_accepts:
  assumes "openTag chars s = (s', Some q)"
  shows "wf_tag q \<and> s' = s\<lparr>cursor := cursor s'\<rparr>"
proof -
  obtain i1 tag c1 where n: "openTag_name chars (cursor s) [] None = (i1, tag, c1)"
    by (cases "openTag_name chars (cursor s) [] None")
  from openTag_name_result [OF n] have tag: "\<forall>x \<in> set tag. alnum x"
    and c1: "i1 < length chars \<Longrightarrow> \<exists>ch. c1 = Some ch \<and> \<not> alnum ch" by auto
  show ?thesis
  proof (cases "tag \<noteq> [] \<and> i1 < length chars \<and> c1 \<noteq> Some CHR ''>''")
    case True
    with c1 obtain ch where ch: "c1 = Some ch" "\<not> alnum ch" "ch \<noteq> CHR ''>''" by auto
    obtain i2 other c2 where o: "openTag_other chars i1 [ch] c1 = (i2, other, c2)"
      by (cases "openTag_other chars i1 [ch] c1")
    from openTag_other_result [OF o] ch obtain r where
      other: "CHR ''>'' \<notin> set other" "other = ch # r" by auto
    from assms True ch o have "q = (tag, other)" "s' = s\<lparr>cursor := i2\<rparr>"
      unfolding openTag_def Let_def n by (auto split: if_splits)
    with True tag other ch show ?thesis by (simp add: wf_tag_def)
  next
    case False
    with assms have "q = (tag, [])" "tag \<noteq> []" "s' = s\<lparr>cursor := i1\<rparr>"
      unfolding openTag_def Let_def n by (auto split: if_splits)
    with tag show ?thesis by (simp add: wf_tag_def)
  qed
qed

lemma openTag_cursor_only:
  "snd (openTag chars s) = snd (openTag chars (init_state\<lparr>cursor := cursor s\<rparr>))"
  unfolding openTag_def Let_def by (auto split: prod.splits)

lemma openTag_rejects:
  assumes "char_at chars (cursor s) = Some c" and "\<not> alnum c"
  shows "snd (openTag chars s) = None"
proof -
  from assms have "openTag_name chars (cursor s) [] None = (Suc (cursor s), [], Some c)"
    by (subst openTag_name.simps) (auto simp: char_at_def alnum_def split: if_splits)
  then show ?thesis unfolding openTag_def Let_def by simp
qed

lemma well_formed_markup_at:
  assumes "well_formed_markup chars" and "i < length chars"
  shows "chars ! i = CHR ''<'' \<Longrightarrow> accepted_tag_at chars (Suc i)"
    and "chars ! i = CHR ''&'' \<Longrightarrow> entity_is_text chars i"
  using assms unfolding well_formed_markup_def list_all_iff by auto

lemma entity_loop_append:
  "entity_loop chars offset i res =
     (fst (entity_loop chars offset i []), res @ snd (entity_loop chars offset i []))"
proof (induction chars offset i res rule: entity_loop.induct)
  case (1 chars offset i res)
  then show ?case
    by (subst (1 2 3) entity_loop.simps) (simp add: Let_def)
qed

lemma entity_is_text_wf:
  assumes "entity_is_text chars i"
  shows "\<forall>p \<in> set (snd (entity_loop chars i (Suc i) [])). wf_piece vt p"
proof -
  obtain j res where el: "entity_loop chars i (Suc i) [] = (j, res)"
    by (cases "entity_loop chars i (Suc i) []")
  from entity_loop_result [OF el] assms show ?thesis
    unfolding entity_is_text_def el list_all_iff by auto
qed

lemma tidy_cursor: "tidy vt (s\<lparr>cursor := i\<rparr>) = tidy vt s"
  by (simp add: tidy_def)

lemma step_tidy:
  assumes "well_formed_markup chars" and "suffix_is_text opts" and "tidy vt s"
    and "cursor s < length chars"
    and "step vt chars len opts s = Some f" and "f = Continue s' \<or> f = Break s'"
  shows "tidy vt s'"
proof -
  consider (lt) "chars ! cursor s = CHR ''<''" | (amp) "chars ! cursor s = CHR ''&''"
    | (other) "chars ! cursor s \<noteq> CHR ''<''" "chars ! cursor s \<noteq> CHR ''&''" by blast
  then show ?thesis
  proof cases
    case lt
    obtain ok s1 where fw: "flushWord vt len opts (s\<lparr>cursor := Suc (cursor s)\<rparr>) = (ok, s1)"
      by (cases "flushWord vt len opts (s\<lparr>cursor := Suc (cursor s)\<rparr>)")
    from flushWord_frame [OF fw] have c1: "cursor s1 = Suc (cursor s)" by simp
    from flushWord_tidy [OF fw] assms(3) have t1: "tidy vt s1" by (simp add: tidy_cursor)
    from well_formed_markup_at(1) [OF assms(1,4) lt] have acc: "accepted_tag_at chars (cursor s1)"
      unfolding c1 .
    note st = assms(5) [unfolded step_lt [OF lt fw]]
    show ?thesis
    proof (cases ok)
      case False
      with st assms(6) t1 show ?thesis by auto
    next
      case ok: True
      show ?thesis
      proof (cases "char_at chars (cursor s1) = Some CHR ''/''")
        case True
        with st ok have "f = closing_tag vt chars len opts s1" by simp
        with assms(6) closing_tag_not_Break [of vt chars len opts s1 s']
        have "closing_tag vt chars len opts s1 = Continue s'" by auto
        from closing_tag_tidy [OF this t1 assms(2)] show ?thesis .
      next
        case nslash: False
        with acc have some: "snd (openTag chars s1) \<noteq> None"
          unfolding accepted_tag_at_def using openTag_cursor_only [of chars s1] by simp
        have nbang: "char_at chars (cursor s1) \<noteq> Some CHR ''!''"
        proof
          assume "char_at chars (cursor s1) = Some CHR ''!''"
          from openTag_rejects [OF this] some show False
            by (simp add: alnum_def isLetter_def isNumber_def)
        qed
        from some obtain s2 q where ot: "openTag chars s1 = (s2, Some q)"
          by (cases "openTag chars s1") auto
        from openTag_accepts [OF ot] have q: "wf_tag q" and s2: "s2 = s1\<lparr>cursor := cursor s2\<rparr>"
          by auto
        from st ok nslash nbang ot have "f = Continue (s2\<lparr>openedQueue := openedQueue s2 @ [q]\<rparr>)"
          by simp
        with assms(6) have s': "s' = s2\<lparr>openedQueue := openedQueue s2 @ [q]\<rparr>" by auto
        have "tidy vt s2" using t1 by (subst s2) (simp add: tidy_cursor)
        with q show ?thesis unfolding s' tidy_def by auto
      qed
    qed
  next
    case amp
    obtain j res where
      el: "entity_loop chars (cursor s) (Suc (cursor s)) (result s @ [Text ''&'']) = (j, res)"
      by (cases "entity_loop chars (cursor s) (Suc (cursor s)) (result s @ [Text ''&''])")
    from el entity_loop_append [of chars "cursor s" "Suc (cursor s)" "result s @ [Text ''&'']"]
    have res: "res = (result s @ [Text ''&'']) @ snd (entity_loop chars (cursor s) (Suc (cursor s)) [])"
      by simp
    from assms(5,6) have s': "s' = s\<lparr>cursor := j, current := current s + 1, result := res\<rparr>"
      unfolding step_amp [OF amp el] by auto
    from entity_is_text_wf [OF well_formed_markup_at(2) [OF assms(1,4) amp], of vt] assms(3)
    show ?thesis unfolding s' res tidy_def by auto
  next
    case other
    note nlt = other(1) and namp = other(2)
    obtain ok s1 where fw: "(if \<not> isLetter (chars ! cursor s) \<and> \<not> cwEmpty s
          then flushWord vt len opts (s\<lparr>cursor := Suc (cursor s), cwEmpty := True\<rparr>)
          else (True, s\<lparr>cursor := Suc (cursor s)\<rparr>)) = (ok, s1)"
      by (cases "if \<not> isLetter (chars ! cursor s) \<and> \<not> cwEmpty s
          then flushWord vt len opts (s\<lparr>cursor := Suc (cursor s), cwEmpty := True\<rparr>)
          else (True, s\<lparr>cursor := Suc (cursor s)\<rparr>)")
    have pre: "tidy vt (s\<lparr>cursor := Suc (cursor s), cwEmpty := True\<rparr>)"
      "tidy vt (s\<lparr>cursor := Suc (cursor s)\<rparr>)"
      using assms(3) by (simp_all add: tidy_def)
    have t1: "tidy vt s1"
      using fw pre flushWord_tidy [of vt len opts "s\<lparr>cursor := Suc (cursor s), cwEmpty := True\<rparr>" ok s1]
      by (auto split: if_splits)
    note st = assms(5) [unfolded step_other [OF nlt namp fw]]
    show ?thesis
    proof (cases ok)
      case False
      with st assms(6) t1 show ?thesis by auto
    next
      case True
      with st assms(6) have "s' = s1\<lparr>cwEmpty := (if \<not> isWhitespace (chars ! cursor s) then False else cwEmpty s1),
            cw := cw s1 @ [chars ! cursor s]\<rparr>" by auto
      with t1 nlt show ?thesis by (simp add: tidy_def)
    qed
  qed
qed

lemma reaches_tidy:
  assumes "well_formed_markup chars" and "suffix_is_text opts" and "tidy vt s0"
  shows "reaches vt chars len opts s0 s \<Longrightarrow> tidy vt s"
proof (induction rule: reaches.induct)
  case start
  show ?case by (rule assms(3))
next
  case (iteration s s')
  from step_tidy [OF assms(1,2) iteration.IH iteration.hyps(3,4)] show ?case by simp
qed

lemma mainloop_tidy:
  assumes "well_formed_markup chars" and "suffix_is_text opts" and "tidy vt s0"
    and "mainloop vt chars len opts s0 = Some (Inr sf)"
  shows "tidy vt sf"
  using mainloop_cases [of vt chars len opts s0] assms(4)
proof (elim disjE exE conjE)
  fix s
  assume "reaches vt chars len opts s0 s" "mainloop vt chars len opts s0 = Some (Inr s)"
  with assms show ?thesis by (auto dest: reaches_tidy)
next
  fix s sf'
  assume r: "reaches vt chars len opts s0 s" and g: "cursor s < length chars"
    and b: "step vt chars len opts s = Some (Break sf')"
    and m: "mainloop vt chars len opts s0 = Some (Inr sf')"
  from reaches_tidy [OF assms(1,2,3) r] have "tidy vt s" .
  from step_tidy [OF assms(1,2) this g b] m assms(4) show ?thesis by simp
qed simp

lemma finalize_tidy:
  assumes "tidy vt s" and "suffix_is_text opts"
  shows "\<forall>p \<in> set (finalize vt len opts s). wf_piece vt p"
proof -
  define s1 where "s1 = openTags vt True s"
  obtain flushed s2 where fw: "flushWord vt len opts s1 = (flushed, s2)"
    by (cases "flushWord vt len opts s1")
  have t2: "tidy vt s2"
    using flushWord_tidy [OF fw] openTags_tidy [OF assms(1)] unfolding s1_def by simp
  let ?cl = "map Closer (rev (closeQueue s2))"
  have shape: "finalize vt len opts s =
      (if shouldEncloseSuffixInTags opts
       then (if flushed then result s2 else snd (addSuffix opts s2 (result s2))) @ ?cl
       else (if flushed then result s2 @ ?cl else snd (addSuffix opts s2 (result s2 @ ?cl))))"
    unfolding finalize_def Let_def s1_def [symmetric] fw
      getResultWithSuffixAfterClosingTags_def getResultWithSuffixBeforeClosingTags_def
    by simp
  have add: "\<forall>p \<in> set res. wf_piece vt p \<Longrightarrow> \<forall>p \<in> set (snd (addSuffix opts s2 res)). wf_piece vt p"
    for res
    using assms(2) unfolding addSuffix_def suffix_is_text_def
    by (auto split: option.splits)
  have r: "\<forall>p \<in> set (result s2). wf_piece vt p" and c: "\<forall>p \<in> set ?cl. wf_piece vt p"
    using t2 unfolding tidy_def by auto
  from r c have rc: "\<forall>p \<in> set (result s2 @ ?cl). wf_piece vt p" by auto
  show ?thesis
    unfolding shape using r c add [OF r] add [OF rc] by auto
qed

lemma tidy_init: "tidy vt init_state"
  by (simp add: tidy_def init_state_def)

subsection \<open>The suffix text\<close>

text \<open>
  The text of the suffix is only ever appended: no test of the program reads it. So two
  runs that differ in the suffix text alone go through the same states, up to the text of
  the suffix pieces written. \<open>refill x\<close> puts the text \<open>x\<close> into a suffix piece.
\<close>

fun refill :: "string \<Rightarrow> piece \<Rightarrow> piece" where
  "refill x (Suffix t) = Suffix x"
| "refill x (Text t) = Text t"
| "refill x (Entity t) = Entity t"
| "refill x (OpenTag tag other) = OpenTag tag other"
| "refill x (CloseTag tag) = CloseTag tag"
| "refill x (Closer c) = Closer c"

definition resuffix :: "string \<Rightarrow> state \<Rightarrow> state" where
  "resuffix x s = s\<lparr>result := map (refill x) (result s)\<rparr>"

fun resuffix_flow :: "string \<Rightarrow> flow \<Rightarrow> flow" where
  "resuffix_flow x (Continue s) = Continue (resuffix x s)"
| "resuffix_flow x (Break s) = Break (resuffix x s)"
| "resuffix_flow x (Throw e) = Throw e"

lemma resuffix_frame [simp]:
  "cursor (resuffix x s) = cursor s" "current (resuffix x s) = current s"
  "cw (resuffix x s) = cw s" "cwEmpty (resuffix x s) = cwEmpty s"
  "openedQueue (resuffix x s) = openedQueue s" "closeQueue (resuffix x s) = closeQueue s"
  "suffixAdded (resuffix x s) = suffixAdded s"
  "result (resuffix x s) = map (refill x) (result s)"
  by (simp_all add: resuffix_def)

lemma resuffix_update [simp]:
  "resuffix x (s\<lparr>cursor := i\<rparr>) = (resuffix x s)\<lparr>cursor := i\<rparr>"
  "resuffix x (s\<lparr>current := n\<rparr>) = (resuffix x s)\<lparr>current := n\<rparr>"
  "resuffix x (s\<lparr>cw := w\<rparr>) = (resuffix x s)\<lparr>cw := w\<rparr>"
  "resuffix x (s\<lparr>cwEmpty := b\<rparr>) = (resuffix x s)\<lparr>cwEmpty := b\<rparr>"
  "resuffix x (s\<lparr>openedQueue := q\<rparr>) = (resuffix x s)\<lparr>openedQueue := q\<rparr>"
  "resuffix x (s\<lparr>closeQueue := cq\<rparr>) = (resuffix x s)\<lparr>closeQueue := cq\<rparr>"
  "resuffix x (s\<lparr>suffixAdded := b\<rparr>) = (resuffix x s)\<lparr>suffixAdded := b\<rparr>"
  "resuffix x (s\<lparr>result := r\<rparr>) = (resuffix x s)\<lparr>result := map (refill x) r\<rparr>"
  by (simp_all add: resuffix_def)

lemma openTags_resuffix: "openTags vt b (resuffix x s) = resuffix x (openTags vt b s)"
proof (induction "openedQueue s" arbitrary: s)
  case Nil
  then show ?case by (simp add: openTags_Nil)
next
  case (Cons p rest)
  obtain tag other where p: "p = (tag, other)" by (cases p)
  have q: "openedQueue s = (tag, other) # rest" using Cons.hyps(2) p by simp
  then have q': "openedQueue (resuffix x s) = (tag, other) # rest" by simp
  show ?case
  proof (cases "b \<and> \<not> (isVoidTag vt tag \<or> (other \<noteq> [] \<and> last other = CHR ''/''))")
    case True
    then show ?thesis by (simp add: openTags_Cons [OF q] openTags_Cons [OF q'])
  next
    case False
    let ?s = "s\<lparr>openedQueue := rest, result := result s @ [OpenTag tag other],
                 closeQueue := closeQueue s @ closers_of vt [(tag, other)]\<rparr>"
    have "rest = openedQueue ?s" by simp
    from Cons.hyps(1) [OF this]
    have ih: "openTags vt b (resuffix x ?s) = resuffix x (openTags vt b ?s)" .
    have l: "openTags vt b s = openTags vt b ?s"
      using False by (auto simp add: openTags_Cons [OF q])
    have "openTags vt b (resuffix x s) =
        openTags vt b ((resuffix x s)\<lparr>openedQueue := rest,
           result := result (resuffix x s) @ [OpenTag tag other],
           closeQueue := closeQueue (resuffix x s) @ closers_of vt [(tag, other)]\<rparr>)"
      using False by (auto simp add: openTags_Cons [OF q'])
    also have "(resuffix x s)\<lparr>openedQueue := rest,
           result := result (resuffix x s) @ [OpenTag tag other],
           closeQueue := closeQueue (resuffix x s) @ closers_of vt [(tag, other)]\<rparr> = resuffix x ?s"
      by (simp add: resuffix_def)
    finally show ?thesis unfolding l ih .
  qed
qed

lemma flushWord_resuffix:
  assumes "breakWords opts' = breakWords opts"
  shows "flushWord vt len opts' (resuffix x s) =
     (fst (flushWord vt len opts s), resuffix x (snd (flushWord vt len opts s)))"
  using assms unfolding flushWord_def Let_def
  by (simp add: openTags_resuffix openTags_frame)

lemma closing_tag_resuffix:
  assumes "suffix opts = Some y"
  shows "closing_tag vt chars len (opts\<lparr>suffix := Some x\<rparr>) (resuffix x s) =
     resuffix_flow x (closing_tag vt chars len opts s)"
  unfolding closing_tag_def Let_def case_prod_beta openTags_resuffix
  using assms by (simp add: resuffix_def addSuffix_def)

lemma entity_loop_resuffix:
  "entity_loop chars offset i (map (refill x) res) =
     (fst (entity_loop chars offset i res), map (refill x) (snd (entity_loop chars offset i res)))"
proof (induction chars offset i res rule: entity_loop.induct)
  case (1 chars offset i res)
  then show ?case
    by (subst (1 2 3) entity_loop.simps) (simp add: Let_def)
qed

lemma openTag_resuffix:
  "openTag chars (resuffix x s) = (resuffix x (fst (openTag chars s)), snd (openTag chars s))"
  unfolding openTag_def Let_def by (simp split: prod.splits)

lemma step_resuffix:
  assumes "suffix opts = Some y" and "opts' = opts\<lparr>suffix := Some x\<rparr>"
  shows "step vt chars len opts' (resuffix x s) = map_option (resuffix_flow x) (step vt chars len opts s)"
proof -
  have bw: "breakWords opts' = breakWords opts" using assms(2) by simp
  consider (lt) "chars ! cursor s = CHR ''<''" | (amp) "chars ! cursor s = CHR ''&''"
    | (other) "chars ! cursor s \<noteq> CHR ''<''" "chars ! cursor s \<noteq> CHR ''&''" by blast
  then show ?thesis
  proof cases
    case lt
    obtain ok s1 where fw: "flushWord vt len opts (s\<lparr>cursor := Suc (cursor s)\<rparr>) = (ok, s1)"
      by (cases "flushWord vt len opts (s\<lparr>cursor := Suc (cursor s)\<rparr>)")
    have fw': "flushWord vt len opts' ((resuffix x s)\<lparr>cursor := Suc (cursor (resuffix x s))\<rparr>)
        = (ok, resuffix x s1)"
      using flushWord_resuffix [OF bw, of vt len x "s\<lparr>cursor := Suc (cursor s)\<rparr>"] fw by simp
    have lt': "chars ! cursor (resuffix x s) = CHR ''<''" using lt by simp
    show ?thesis
      unfolding step_lt [OF lt fw] step_lt [OF lt' fw']
      by (simp add: closing_tag_resuffix [OF assms(1)] assms(2) openTag_resuffix split: prod.splits option.splits)
  next
    case amp
    obtain j res where
      el: "entity_loop chars (cursor s) (Suc (cursor s)) (result s @ [Text ''&'']) = (j, res)"
      by (cases "entity_loop chars (cursor s) (Suc (cursor s)) (result s @ [Text ''&''])")
    have el': "entity_loop chars (cursor (resuffix x s)) (Suc (cursor (resuffix x s)))
        (result (resuffix x s) @ [Text ''&'']) = (j, map (refill x) res)"
      using entity_loop_resuffix [of chars "cursor s" "Suc (cursor s)" x "result s @ [Text ''&'']"] el
      by simp
    have amp': "chars ! cursor (resuffix x s) = CHR ''&''" using amp by simp
    show ?thesis
      unfolding step_amp [OF amp el] step_amp [OF amp' el'] by simp
  next
    case other
    obtain ok s1 where fw: "(if \<not> isLetter (chars ! cursor s) \<and> \<not> cwEmpty s
          then flushWord vt len opts (s\<lparr>cursor := Suc (cursor s), cwEmpty := True\<rparr>)
          else (True, s\<lparr>cursor := Suc (cursor s)\<rparr>)) = (ok, s1)"
      by (cases "if \<not> isLetter (chars ! cursor s) \<and> \<not> cwEmpty s
          then flushWord vt len opts (s\<lparr>cursor := Suc (cursor s), cwEmpty := True\<rparr>)
          else (True, s\<lparr>cursor := Suc (cursor s)\<rparr>)")
    have fw': "(if \<not> isLetter (chars ! cursor (resuffix x s)) \<and> \<not> cwEmpty (resuffix x s)
          then flushWord vt len opts' ((resuffix x s)\<lparr>cursor := Suc (cursor (resuffix x s)), cwEmpty := True\<rparr>)
          else (True, (resuffix x s)\<lparr>cursor := Suc (cursor (resuffix x s))\<rparr>)) = (ok, resuffix x s1)"
      using flushWord_resuffix [OF bw, of vt len x "s\<lparr>cursor := Suc (cursor s), cwEmpty := True\<rparr>"] fw
      by (auto split: if_splits)
    have other': "chars ! cursor (resuffix x s) \<noteq> CHR ''<''" "chars ! cursor (resuffix x s) \<noteq> CHR ''&''"
      using other by simp_all
    show ?thesis
      unfolding step_other [OF other fw] step_other [OF other' fw'] by simp
  qed
qed

lemma mainloop_resuffix:
  assumes "suffix opts = Some y" and "opts' = opts\<lparr>suffix := Some x\<rparr>"
  shows "mainloop vt chars len opts' (resuffix x s) =
     map_option (map_sum id (resuffix x)) (mainloop vt chars len opts s)"
  using assms
proof (induction vt chars len opts s rule: mainloop.induct)
  case (1 vt chars len opts s)
  show ?case
  proof (cases "current s < len \<and> cursor s < length chars")
    case False
    then show ?thesis by (simp add: mainloop_stop)
  next
    case guard: True
    from step_returns obtain f where f: "step vt chars len opts s = Some f" by blast
    have f': "step vt chars len opts' (resuffix x s) = Some (resuffix_flow x f)"
      using step_resuffix [OF "1.prems", of vt chars len s] f by simp
    have g': "current (resuffix x s) < len" "cursor (resuffix x s) < length chars"
      using guard by simp_all
    show ?thesis
    proof (cases f)
      case (Continue s1)
      from "1.IH" [OF guard f Continue "1.prems"] show ?thesis
        using guard f f' g' Continue by (simp add: mainloop_iterate)
    next
      case (Break sf)
      then show ?thesis using guard f f' g' by (simp add: mainloop_iterate)
    next
      case (Throw e)
      then show ?thesis using guard f f' g' by (simp add: mainloop_iterate)
    qed
  qed
qed

lemma finalize_resuffix:
  assumes "suffix opts = Some y"
  shows "finalize vt len (opts\<lparr>suffix := Some x\<rparr>) (resuffix x s) = map (refill x) (finalize vt len opts s)"
proof -
  define s1 where "s1 = openTags vt True s"
  obtain flushed s2 where fw: "flushWord vt len opts s1 = (flushed, s2)"
    by (cases "flushWord vt len opts s1")
  have fw': "flushWord vt len (opts\<lparr>suffix := Some x\<rparr>) (resuffix x s1) = (flushed, resuffix x s2)"
    using flushWord_resuffix [of "opts\<lparr>suffix := Some x\<rparr>" opts vt len x s1] fw by simp
  have cl: "refill x \<circ> Closer = Closer" by (rule ext) simp
  show ?thesis
    unfolding finalize_def Let_def openTags_resuffix s1_def [symmetric] fw fw' prod.case
      getResultWithSuffixAfterClosingTags_def getResultWithSuffixBeforeClosingTags_def
    using assms by (simp add: addSuffix_def cl)
qed

lemma resuffix_init: "resuffix x init_state = init_state"
  by (simp add: resuffix_def init_state_def)

lemma html_substring_pieces_resuffix:
  assumes "suffix opts = Some y"
  shows "html_substring_pieces vt source len (opts\<lparr>suffix := Some x\<rparr>) =
     map_option (map_sum id (map (refill x))) (html_substring_pieces vt source len opts)"
proof -
  from mainloop_resuffix [OF assms refl, of vt source len x init_state]
  have "mainloop vt source len (opts\<lparr>suffix := Some x\<rparr>) init_state =
      map_option (map_sum id (resuffix x)) (mainloop vt source len opts init_state)"
    by (simp add: resuffix_init)
  then show ?thesis
    unfolding html_substring_pieces_def
    by (auto simp: finalize_resuffix [OF assms] split: option.splits sum.splits)
qed

lemma refill_none: "suffix_count ps = 0 \<Longrightarrow> map (refill x) ps = ps"
  by (induction ps rule: suffix_count.induct) simp_all

lemma render_refill:
  assumes "suffix_count ps \<le> 1"
  shows "\<exists>pre post n. n \<le> (1::nat) \<and> (\<forall>x. render (map (refill x) ps) = pre @ concat (replicate n x) @ post)"
  using assms
proof (induction ps)
  case Nil
  show ?case by (intro exI [of _ "[]"] exI [of _ 0]) (simp add: render_def)
next
  case (Cons p ps)
  show ?case
  proof (cases "\<exists>t. p = Suffix t")
    case True
    then obtain t where p: "p = Suffix t" ..
    with Cons.prems have "suffix_count ps = 0" by simp
    then have "\<forall>x. render (map (refill x) (p # ps)) = [] @ concat (replicate 1 x) @ render ps"
      unfolding p by (simp add: refill_none render_def)
    then show ?thesis by (intro exI [of _ "[]"] exI [of _ "render ps"] exI [of _ 1]) simp
  next
    case False
    then have keep: "refill x p = p" for x by (cases p) simp_all
    from False have "suffix_count (p # ps) = suffix_count ps" by (cases p) simp_all
    with Cons obtain pre post n where "n \<le> 1"
      "\<forall>x. render (map (refill x) ps) = pre @ concat (replicate n x) @ post" by auto
    then show ?thesis
      by (intro exI [of _ "render_piece p @ pre"] exI [of _ post] exI [of _ n])
         (simp add: render_def keep)
  qed
qed

lemma resolve_with_suffix:
  "resolve_options (with_suffix x options) = (resolve_options options)\<lparr>suffix := Some x\<rparr>"
  by (cases options) simp_all

lemma suffix_text_once:
  assumes "html_substring vt source len options = Some (Inr out)"
    and "suffix (resolve_options options) = Some y"
  shows "\<exists>pre post n. n \<le> (1::nat) \<and> out = pre @ concat (replicate n y) @ post
      \<and> (\<forall>x. html_substring vt source len (with_suffix x options)
            = Some (Inr (pre @ concat (replicate n x) @ post)))"
proof -
  let ?opts = "resolve_options options"
  from html_substring_Inr [OF assms(1)] obtain ps where
    ps: "html_substring_pieces vt source len ?opts = Some (Inr ps)" and out: "out = render ps"
    by blast
  from pieces_written [OF ps] have "suffix_count ps \<le> 1" by simp
  from render_refill [OF this] obtain pre post n where n: "n \<le> 1"
    and r: "\<And>x. render (map (refill x) ps) = pre @ concat (replicate n x) @ post" by blast
  have run: "html_substring vt source len (with_suffix x options)
      = Some (Inr (pre @ concat (replicate n x) @ post))" for x
    unfolding html_substring_def resolve_with_suffix
      html_substring_pieces_resuffix [OF assms(2)] ps
    by (simp add: r)
  have "resolve_options (with_suffix y options) = ?opts"
    unfolding resolve_with_suffix using assms(2) by simp
  then have "html_substring vt source len (with_suffix y options) = html_substring vt source len options"
    unfolding html_substring_def by simp
  with run [of y] assms(1) have "out = pre @ concat (replicate n y) @ post" by simp
  with n run show ?thesis by blast
qed

subsection \<open>The visible text of the pieces\<close>

text \<open>
  The visible text of a piece is its text, and a tag has none. The visible text read off
  the concatenation of well-formed pieces is the visible text of the pieces.
\<close>

fun piece_text :: "piece \<Rightarrow> string" where
  "piece_text (Text t) = t"
| "piece_text (Entity t) = t"
| "piece_text (Suffix t) = t"
| "piece_text (OpenTag tag other) = []"
| "piece_text (CloseTag tag) = []"
| "piece_text (Closer c) = []"

definition vis :: "piece list \<Rightarrow> string" where
  "vis ps = concat (map piece_text ps)"

lemma vis_simps [simp]:
  "vis [] = []" "vis (ps @ qs) = vis ps @ vis qs" "vis (p # ps) = piece_text p @ vis ps"
  by (simp_all add: vis_def)

lemma vis_opened: "vis (opened q) = []"
  by (induction q) (auto simp: opened_def vis_def)

lemma vis_closers: "vis (map Closer cq) = []"
  by (induction cq) (auto simp: vis_def)

lemma text_plain:
  "CHR ''<'' \<notin> set t \<Longrightarrow> read_text Outside (t @ rest) = t @ read_text Outside rest"
  by (induction t) auto

lemma text_close:
  "CHR ''>'' \<notin> set t \<Longrightarrow> read_text (InClose acc) (t @ CHR ''>'' # rest) = read_text Outside rest"
  by (induction t arbitrary: acc) auto

lemma text_other:
  "CHR ''>'' \<notin> set other \<Longrightarrow>
     read_text (InOther tag acc) (other @ CHR ''>'' # rest) = read_text Outside rest"
  by (induction other arbitrary: acc) auto

lemma text_name:
  assumes "\<forall>c \<in> set t. alnum c" and "CHR ''>'' \<notin> set other"
    and "other = [] \<or> \<not> alnum (hd other)"
  shows "read_text (InName acc) (t @ other @ CHR ''>'' # rest) = read_text Outside rest"
  using assms(1)
proof (induction t arbitrary: acc)
  case Nil
  show ?case
  proof (cases other)
    case Nil
    then show ?thesis by simp
  next
    case (Cons c other')
    with assms(2,3) have "c \<noteq> CHR ''>''" "\<not> (isLetter c \<or> isNumber c)" "CHR ''>'' \<notin> set other'"
      by (auto simp: alnum_def)
    then show ?thesis using Cons text_other [of other' acc "[c]" rest] by simp
  qed
next
  case (Cons c t)
  then have "alnum c" by simp
  with alnum_not_markup [of c] Cons show ?case by (simp add: alnum_def)
qed

lemma text_piece:
  assumes "wf_piece vt p"
  shows "read_text Outside (render_piece p @ rest) = piece_text p @ read_text Outside rest"
proof (cases p)
  case (OpenTag tag other)
  with assms obtain c t where tag: "tag = c # t" and w: "alnum c" "\<forall>x \<in> set t. alnum x"
      "CHR ''>'' \<notin> set other" "other = [] \<or> \<not> alnum (hd other)"
    by (cases tag) (auto simp: wf_tag_def)
  from text_name [OF w(2,3,4), of "[c]" rest] alnum_not_markup [OF w(1)] w(1)
  show ?thesis unfolding OpenTag tag by (simp add: alnum_def)
next
  case (CloseTag tag)
  with assms text_close [of tag "[]" rest] show ?thesis by simp
next
  case (Closer c)
  with assms obtain t where c: "c = ''</'' @ t @ ''>''" and t: "CHR ''>'' \<notin> set t"
    by (auto simp: wf_closer_def)
  from text_close [OF t, of "[]" rest] show ?thesis unfolding Closer c by simp
qed (use assms in \<open>simp_all add: text_plain\<close>)

lemma text_render:
  "\<forall>p \<in> set ps. wf_piece vt p \<Longrightarrow>
     read_text Outside (render ps @ rest) = vis ps @ read_text Outside rest"
proof (induction ps)
  case Nil
  show ?case by (simp add: render_def)
next
  case (Cons p ps)
  then have ih: "read_text Outside (render ps @ rest) = vis ps @ read_text Outside rest" by simp
  have "render (p # ps) @ rest = render_piece p @ (render ps @ rest)" by (simp add: render_def)
  then show ?case using text_piece [of vt p "render ps @ rest"] Cons.prems ih by simp
qed

lemma text_of_render: "\<forall>p \<in> set ps. wf_piece vt p \<Longrightarrow> text_of (render ps) = vis ps"
  using text_render [of ps vt "[]"] by (simp add: text_of_def)

subsection \<open>What the tag scanner has read\<close>

lemma openTag_name_read:
  "openTag_name chars i acc c = (j, t, c') \<Longrightarrow>
     (\<exists>r ch. t = acc @ r \<and> c' = Some ch \<and> \<not> alnum ch \<and> j \<le> length chars
        \<and> take j chars = take i chars @ r @ [ch])
     \<or> (length chars \<le> j \<and> (c' = c \<or> (\<exists>ch. c' = Some ch \<and> alnum ch)))"
proof (induction chars i acc c arbitrary: j t c' rule: openTag_name.induct)
  case (1 chars i tag c)
  show ?case
  proof (cases "i < length chars")
    case False
    with "1.prems" show ?thesis by (subst (asm) openTag_name.simps) auto
  next
    case inside: True
    show ?thesis
    proof (cases "alnum (chars ! i)")
      case False
      with inside "1.prems" have "j = Suc i" "t = tag" "c' = Some (chars ! i)"
        by (subst (asm) openTag_name.simps, simp add: alnum_def Let_def)+
      with inside False show ?thesis by (simp add: take_Suc_conv_app_nth)
    next
      case True
      with inside "1.prems"
      have call: "openTag_name chars (Suc i) (tag @ [chars ! i]) (Some (chars ! i)) = (j, t, c')"
        by (subst (asm) openTag_name.simps) (auto simp: alnum_def Let_def)
      from True inside have "\<not> (\<not> isLetter (chars ! i) \<and> \<not> isNumber (chars ! i))"
        by (simp add: alnum_def)
      from "1.IH" [OF inside refl this call] show ?thesis
      proof (elim disjE exE conjE)
        fix r ch
        assume "t = (tag @ [chars ! i]) @ r" "c' = Some ch" "\<not> alnum ch" "j \<le> length chars"
          "take j chars = take (Suc i) chars @ r @ [ch]"
        with inside show ?thesis
          by (intro disjI1 exI [of _ "chars ! i # r"] exI [of _ ch])
             (simp add: take_Suc_conv_app_nth)
      next
        assume "length chars \<le> j" "c' = Some (chars ! i)"
        with True show ?thesis by auto
      next
        fix ch
        assume "length chars \<le> j" "c' = Some ch" "alnum ch"
        then show ?thesis by auto
      qed
    qed
  qed
qed

lemma openTag_other_read:
  "openTag_other chars i acc c = (j, t, c') \<Longrightarrow>
     (\<exists>r. t = acc @ r \<and> c' = Some CHR ''>'' \<and> j \<le> length chars
        \<and> take j chars = take i chars @ r @ ''>'')
     \<or> (length chars \<le> j \<and> (c' = c \<or> (\<exists>ch. c' = Some ch \<and> ch \<noteq> CHR ''>'')))"
proof (induction chars i acc c arbitrary: j t c' rule: openTag_other.induct)
  case (1 chars i other c)
  show ?case
  proof (cases "i < length chars")
    case False
    with "1.prems" show ?thesis by (subst (asm) openTag_other.simps) auto
  next
    case inside: True
    show ?thesis
    proof (cases "chars ! i = CHR ''>''")
      case True
      with inside "1.prems" have "j = Suc i" "t = other" "c' = Some CHR ''>''"
        by (subst (asm) openTag_other.simps, simp add: Let_def)+
      with inside True show ?thesis by (simp add: take_Suc_conv_app_nth)
    next
      case False
      with inside "1.prems"
      have call: "openTag_other chars (Suc i) (other @ [chars ! i]) (Some (chars ! i)) = (j, t, c')"
        by (subst (asm) openTag_other.simps) (simp add: Let_def)
      from "1.IH" [OF inside refl False call] show ?thesis
      proof (elim disjE exE conjE)
        fix r
        assume "t = (other @ [chars ! i]) @ r" "c' = Some CHR ''>''" "j \<le> length chars"
          "take j chars = take (Suc i) chars @ r @ ''>''"
        with inside show ?thesis
          by (intro disjI1 exI [of _ "chars ! i # r"]) (simp add: take_Suc_conv_app_nth)
      next
        assume "length chars \<le> j" "c' = Some (chars ! i)"
        with False show ?thesis by auto
      next
        fix ch
        assume "length chars \<le> j" "c' = Some ch" "ch \<noteq> CHR ''>''"
        then show ?thesis by auto
      qed
    qed
  qed
qed

lemma openTag_read:
  assumes "openTag chars s = (s', Some (tag, other))"
  shows "take (cursor s') chars = take (cursor s) chars @ tag @ other @ ''>''
     \<and> cursor s' \<le> length chars"
proof -
  obtain i1 tg c1 where n: "openTag_name chars (cursor s) [] None = (i1, tg, c1)"
    by (cases "openTag_name chars (cursor s) [] None")
  obtain i2 ot c2 where o: "(if tg \<noteq> [] \<and> i1 < length chars \<and> c1 \<noteq> Some CHR ''>''
             then openTag_other chars i1 (case c1 of None \<Rightarrow> [] | Some ch \<Rightarrow> [ch]) c1
             else (i1, [], c1)) = (i2, ot, c2)"
    by (cases "if tg \<noteq> [] \<and> i1 < length chars \<and> c1 \<noteq> Some CHR ''>''
             then openTag_other chars i1 (case c1 of None \<Rightarrow> [] | Some ch \<Rightarrow> [ch]) c1
             else (i1, [], c1)")
  from assms have res: "tg \<noteq> []" "c2 = Some CHR ''>''" "tag = tg" "other = ot" "cursor s' = i2"
    unfolding openTag_def Let_def n prod.case o by (auto split: if_splits)
  from openTag_name_read [OF n] show ?thesis
  proof (elim disjE exE conjE)
    fix r ch
    assume a: "tg = [] @ r" "c1 = Some ch" "\<not> alnum ch" "i1 \<le> length chars"
      "take i1 chars = take (cursor s) chars @ r @ [ch]"
    show ?thesis
    proof (cases "ch = CHR ''>''")
      case True
      with a o have "i2 = i1" "ot = []" by auto
      with a True res show ?thesis by simp
    next
      case False
      show ?thesis
      proof (cases "i1 < length chars")
        case True
        with a False res o have oo: "openTag_other chars i1 [ch] c1 = (i2, ot, c2)" by simp
        from openTag_other_read [OF oo] res(2) a(2) False
        obtain r' where "ot = [ch] @ r'" "i2 \<le> length chars"
          "take i2 chars = take i1 chars @ r' @ ''>''" by auto
        with a res show ?thesis by simp
      next
        case outside: False
        with o have "c2 = c1" by simp
        with res(2) a(2) False show ?thesis by simp
      qed
    qed
  next
    assume "length chars \<le> i1" "c1 = None"
    with o res(2) show ?thesis by simp
  next
    fix ch
    assume "length chars \<le> i1" "c1 = Some ch" "alnum ch"
    with o res(2) alnum_not_markup [of ch] show ?thesis by simp
  qed
qed

lemma closeTag_read:
  "closeTag chars i acc = (j, t) \<Longrightarrow> CHR ''>'' \<in> set (drop i chars) \<Longrightarrow>
     \<exists>r. t = acc @ r \<and> CHR ''>'' \<notin> set r \<and> j \<le> length chars
        \<and> take j chars = take i chars @ r @ ''>''"
proof (induction chars i acc arbitrary: j t rule: closeTag.induct)
  case (1 chars i tag)
  from "1.prems"(2) have inside: "i < length chars" by (cases "i < length chars") auto
  show ?case
  proof (cases "chars ! i = CHR ''>''")
    case True
    with inside "1.prems"(1) have "j = Suc i" "t = tag"
      by (subst (asm) closeTag.simps, simp add: Let_def)+
    with inside True show ?thesis by (simp add: take_Suc_conv_app_nth)
  next
    case False
    with inside "1.prems"(1)
    have call: "closeTag chars (Suc i) (tag @ [chars ! i]) = (j, t)"
      by (subst (asm) closeTag.simps) (simp add: Let_def)
    have "drop i chars = chars ! i # drop (Suc i) chars"
      using inside by (simp add: Cons_nth_drop_Suc)
    with "1.prems"(2) False have later: "CHR ''>'' \<in> set (drop (Suc i) chars)" by auto
    from "1.IH" [OF inside refl False call later] obtain r where
      "t = (tag @ [chars ! i]) @ r" "CHR ''>'' \<notin> set r" "j \<le> length chars"
      "take j chars = take (Suc i) chars @ r @ ''>''" by blast
    with inside False show ?thesis
      by (intro exI [of _ "chars ! i # r"]) (simp add: take_Suc_conv_app_nth)
  qed
qed

subsection \<open>The visible text written, for a source whose markup is tags\<close>

text \<open>
  What holds at the head of every iteration when the source has no \<^verbatim>\<open>&\<close>, each \<^verbatim>\<open><\<close> of it
  starts a tag that is finished, and no suffix is configured: the part of the source read
  so far is a sequence of well-formed tags and characters of text, whose text is the
  visible text of the result followed by the word buffer; \<open>current\<close> is the length of the
  visible text of the result and within the length asked for.
\<close>

definition text_inv :: "string list \<Rightarrow> string \<Rightarrow> int \<Rightarrow> state \<Rightarrow> bool" where
  "text_inv vt source len s =
     ((\<exists>sp. take (cursor s) source = render sp \<and> (\<forall>p \<in> set sp. wf_piece vt p)
          \<and> vis sp = vis (result s) @ cw s)
      \<and> current s = int (length (vis (result s))) \<and> current s \<le> len
      \<and> cursor s \<le> length source)"

text \<open>
  With \<^verbatim>\<open>breakWords\<close> false, in addition: the visible text of the result is the visible
  text of a prefix of the source that is empty or ends before a character that is not a
  letter.
\<close>

definition cut_inv :: "string \<Rightarrow> state \<Rightarrow> bool" where
  "cut_inv source s =
     (\<exists>k. k \<le> cursor s \<and> vis (result s) = text_of (take k source)
        \<and> (k = 0 \<or> (k < length source \<and> \<not> isLetter (source ! k))))"

lemma flushWord_text:
  assumes "flushWord vt len opts s = (ok, s')"
    and "current s = int (length (vis (result s)))" and "current s \<le> len"
  shows "vis (result s') @ cw s' = vis (result s) @ cw s"
    and "current s' = int (length (vis (result s')))" and "current s' \<le> len"
    and "cursor s' = cursor s"
    and "\<not> ok \<Longrightarrow> s' = s"
    and "\<not> breakWords opts \<Longrightarrow>
      (vis (result s') = vis (result s) \<and> cw s' = cw s)
      \<or> (vis (result s') = vis (result s) @ cw s \<and> cw s' = [])"
    and "breakWords opts \<Longrightarrow>
      vis (result s') = vis (result s) @ take (nat (len - current s)) (cw s)"
proof -
  note c = flushWord_whole_or_cut [OF assms(1)]
  from flushWord_frame [OF assms(1)] show "cursor s' = cursor s" by simp
  show "\<not> ok \<Longrightarrow> s' = s" using assms(1) flushWord_False [of vt len opts s s'] by simp
  have shape: "s' = s \<or> (\<exists>n. 0 < n \<and> n \<le> length (cw s) \<and> current s + int n \<le> len
      \<and> vis (result s') = vis (result s) @ take n (cw s) \<and> cw s' = drop n (cw s)
      \<and> current s' = current s + int n)"
  proof (cases ok)
    case False
    with assms(1) flushWord_False [of vt len opts s s'] show ?thesis by simp
  next
    case True
    with assms(1) have "flushWord vt len opts s = (True, s')" by simp
    from flushWord_True [OF this] show ?thesis
      by (elim disjE exE conjE) (simp, rule disjI2, auto simp: vis_opened)
  qed
  from shape show "vis (result s') @ cw s' = vis (result s) @ cw s" by auto
  from shape assms(2) show "current s' = int (length (vis (result s')))" by auto
  from shape assms(3) show "current s' \<le> len" by auto
  show "(vis (result s') = vis (result s) \<and> cw s' = cw s)
      \<or> (vis (result s') = vis (result s) @ cw s \<and> cw s' = [])" if "\<not> breakWords opts"
  proof -
    consider "cw s = []" | "cw s \<noteq> []" "current s + int (length (cw s)) \<le> len"
      | "cw s \<noteq> []" "len < current s + int (length (cw s))" by fastforce
    then show ?thesis
    proof cases
      case 1
      with c show ?thesis by simp
    next
      case 2
      with c that show ?thesis by (simp add: vis_opened)
    next
      case 3
      with c that show ?thesis by simp
    qed
  qed
  show "vis (result s') = vis (result s) @ take (nat (len - current s)) (cw s)" if "breakWords opts"
  proof -
    consider "cw s = []" | "cw s \<noteq> []" "current s < len" | "cw s \<noteq> []" "len \<le> current s"
      by fastforce
    then show ?thesis
    proof cases
      case 1
      with c show ?thesis by simp
    next
      case 2
      with c that show ?thesis by (simp add: vis_opened)
    next
      case 3
      with c that show ?thesis by simp
    qed
  qed
qed

lemma flushWord_same_outcome:
  "cw t = cw s \<Longrightarrow> current t = current s \<Longrightarrow>
     fst (flushWord vt len opts t) = fst (flushWord vt len opts s)"
  by (simp add: flushWord_def Let_def)

lemma closing_tag_text:
  assumes "closing_tag vt chars len opts s = Continue s'" and "suffix opts = None"
  shows "result s' = result s @ opened (openedQueue s) @ [CloseTag (snd (closeTag chars (Suc (cursor s)) []))]"
    and "cw s' = cw s" and "current s' = current s"
    and "cursor s' = fst (closeTag chars (Suc (cursor s)) [])"
  using assms unfolding closing_tag_def Let_def case_prod_beta
  by (auto simp: addSuffix_def openTags_frame openTags_all split: if_splits)

lemma tags_only_at:
  assumes "tags_only chars" and "i < length chars"
  shows "chars ! i \<noteq> CHR ''&''"
    and "chars ! i = CHR ''<'' \<Longrightarrow> accepted_tag_at chars (Suc i)"
    and "chars ! i = CHR ''<'' \<Longrightarrow> char_at chars (Suc i) = Some CHR ''/'' \<Longrightarrow>
           CHR ''>'' \<in> set (drop (Suc (Suc i)) chars)"
proof -
  from assms show "chars ! i \<noteq> CHR ''&''" unfolding tags_only_def by (metis nth_mem)
  from assms show "chars ! i = CHR ''<'' \<Longrightarrow> accepted_tag_at chars (Suc i)"
    unfolding tags_only_def using well_formed_markup_at(1) by blast
  from assms show "chars ! i = CHR ''<'' \<Longrightarrow> char_at chars (Suc i) = Some CHR ''/'' \<Longrightarrow>
           CHR ''>'' \<in> set (drop (Suc (Suc i)) chars)"
    unfolding tags_only_def list_all_iff by auto
qed

lemma letter_not_lt: "\<not> isLetter CHR ''<''"
  by (simp add: isLetter_def)

lemma text_step:
  assumes tags: "tags_only source" and none: "suffix opts = None"
    and inv: "text_inv vt source len s" and cut: "\<not> breakWords opts \<longrightarrow> cut_inv source s"
    and guard: "current s < len" "cursor s < length source"
  shows "(\<exists>s'. step vt source len opts s = Some (Continue s') \<and> text_inv vt source len s'
            \<and> (\<not> breakWords opts \<longrightarrow> cut_inv source s'))
     \<or> (\<exists>sf. step vt source len opts s = Some (Break sf) \<and> result sf = result s \<and> cw sf = cw s
            \<and> current sf = current s \<and> \<not> fst (flushWord vt len opts sf))
     \<or> (\<exists>e. step vt source len opts s = Some (Throw e))"
proof -
  let ?p = "cursor s"
  let ?c = "source ! ?p"
  from inv obtain sp where sp: "take ?p source = render sp" "\<forall>p \<in> set sp. wf_piece vt p"
      "vis sp = vis (result s) @ cw s"
    and cur: "current s = int (length (vis (result s)))" "current s \<le> len"
    unfolding text_inv_def by blast
  have read: "text_of (take ?p source) = vis sp"
    unfolding sp(1) by (rule text_of_render [OF sp(2)])
  have next_char: "take (Suc ?p) source = render sp @ [?c]"
    using guard(2) sp(1) by (simp add: take_Suc_conv_app_nth)
  have after_flush: "vis (result s1) @ cw s1 = vis sp \<and> current s1 = int (length (vis (result s1)))
      \<and> current s1 \<le> len \<and> cursor s1 = Suc ?p
      \<and> (\<not> breakWords opts \<longrightarrow> \<not> isLetter ?c \<longrightarrow>
            (\<exists>k. k \<le> ?p \<and> vis (result s1) = text_of (take k source)
               \<and> (k = 0 \<or> (k < length source \<and> \<not> isLetter (source ! k)))))"
    if fw: "flushWord vt len opts t = (ok, s1)"
      and t: "result t = result s" "cw t = cw s" "current t = current s" "cursor t = Suc ?p"
    for t ok s1
  proof -
    have pre: "current t = int (length (vis (result t)))" "current t \<le> len"
      using cur t by simp_all
    note f = flushWord_text [OF fw pre]
    have "\<exists>k. k \<le> ?p \<and> vis (result s1) = text_of (take k source)
               \<and> (k = 0 \<or> (k < length source \<and> \<not> isLetter (source ! k)))"
      if nb: "\<not> breakWords opts" and nl: "\<not> isLetter ?c"
    proof -
      from f(6) [OF nb] show ?thesis
      proof (elim disjE conjE)
        assume "vis (result s1) = vis (result t)"
        with cut nb t(1) show ?thesis unfolding cut_inv_def by auto
      next
        assume "vis (result s1) = vis (result t) @ cw t"
        with t sp(3) read have "vis (result s1) = text_of (take ?p source)" by simp
        with guard(2) nl show ?thesis by (intro exI [of _ ?p]) simp
      qed
    qed
    with f(1-4) t sp(3) show ?thesis by simp
  qed
  consider (lt) "?c = CHR ''<''" | (amp) "?c = CHR ''&''"
    | (other) "?c \<noteq> CHR ''<''" "?c \<noteq> CHR ''&''" by blast
  then show ?thesis
  proof cases
    case amp
    with tags_only_at(1) [OF tags guard(2)] show ?thesis by simp
  next
    case lt
    obtain ok s1 where fw: "flushWord vt len opts (s\<lparr>cursor := Suc ?p\<rparr>) = (ok, s1)"
      by (cases "flushWord vt len opts (s\<lparr>cursor := Suc ?p\<rparr>)")
    note st = step_lt [OF lt fw]
    from after_flush [OF fw] lt letter_not_lt
    have a: "vis (result s1) @ cw s1 = vis sp" "current s1 = int (length (vis (result s1)))"
        "current s1 \<le> len" "cursor s1 = Suc ?p"
      and k1: "\<not> breakWords opts \<Longrightarrow> \<exists>k. k \<le> ?p \<and> vis (result s1) = text_of (take k source)
               \<and> (k = 0 \<or> (k < length source \<and> \<not> isLetter (source ! k)))"
      by simp_all
    have lt_read: "take (Suc ?p) source = render sp @ ''<''" using next_char lt by simp
    show ?thesis
    proof (cases ok)
      case False
      with fw flushWord_False [of vt len opts "s\<lparr>cursor := Suc ?p\<rparr>" s1]
      have s1: "s1 = s\<lparr>cursor := Suc ?p\<rparr>" by simp
      with fw False have "\<not> fst (flushWord vt len opts s1)" by simp
      with st False s1 show ?thesis by simp
    next
      case ok: True
      from tags_only_at(2) [OF tags guard(2) lt] have acc: "accepted_tag_at source (cursor s1)"
        unfolding a(4) .
      show ?thesis
      proof (cases "char_at source (cursor s1) = Some CHR ''/''")
        case slash: True
        then have in2: "Suc ?p < length source" "source ! Suc ?p = CHR ''/''"
          unfolding a(4) char_at_def by (auto split: if_splits)
        from st ok slash have st': "step vt source len opts s = Some (closing_tag vt source len opts s1)"
          by simp
        show ?thesis
        proof (cases "closing_tag vt source len opts s1")
          case (Continue s')
          obtain j tag where ct: "closeTag source (Suc (cursor s1)) [] = (j, tag)"
            by (cases "closeTag source (Suc (cursor s1)) []")
          note c = closing_tag_text [OF Continue none, unfolded ct fst_conv snd_conv]
          from tags_only_at(3) [OF tags guard(2) lt] slash a(4)
          have "CHR ''>'' \<in> set (drop (Suc (Suc ?p)) source)" by simp
          from closeTag_read [OF ct [unfolded a(4)] this] obtain r where
            r: "tag = r" "CHR ''>'' \<notin> set r" "j \<le> length source"
               "take j source = take (Suc (Suc ?p)) source @ r @ ''>''" by auto
          have "take (Suc (Suc ?p)) source = render sp @ ''</''"
            using in2 lt_read by (simp add: take_Suc_conv_app_nth)
          with r have src: "take j source = render (sp @ [CloseTag tag])"
            by (simp add: render_def)
          have wf: "\<forall>p \<in> set (sp @ [CloseTag tag]). wf_piece vt p" using sp(2) r by simp
          have v: "vis (result s') = vis (result s1)" unfolding c(1) by (simp add: vis_opened)
          have ti: "text_inv vt source len s'"
            unfolding text_inv_def c(4) v c(2) c(3)
            using src wf a r(3) by (intro conjI exI [of _ "sp @ [CloseTag tag]"]) simp_all
          have le: "?p \<le> j" using arg_cong [OF r(4), of length] r(3) by simp
          have "cut_inv source s'" if "\<not> breakWords opts"
          proof -
            from k1 [OF that] obtain k where "k \<le> ?p" "vis (result s1) = text_of (take k source)"
              "k = 0 \<or> (k < length source \<and> \<not> isLetter (source ! k))" by blast
            with le show ?thesis unfolding cut_inv_def c(4) v by (intro exI [of _ k]) simp
          qed
          with ti st' Continue show ?thesis by simp
        next
          case (Break sf)
          with closing_tag_not_Break [of vt source len opts s1 sf] show ?thesis by simp
        next
          case (Throw e)
          with st' show ?thesis by simp
        qed
      next
        case nslash: False
        with acc have some: "snd (openTag source s1) \<noteq> None"
          unfolding accepted_tag_at_def using openTag_cursor_only [of source s1] by simp
        have nbang: "char_at source (cursor s1) \<noteq> Some CHR ''!''"
        proof
          assume "char_at source (cursor s1) = Some CHR ''!''"
          from openTag_rejects [OF this] some show False
            by (simp add: alnum_def isLetter_def isNumber_def)
        qed
        from some obtain s2 tag other where ot: "openTag source s1 = (s2, Some (tag, other))"
          by (cases "openTag source s1") auto
        from openTag_accepts [OF ot] have q: "wf_tag (tag, other)"
          and s2: "s2 = s1\<lparr>cursor := cursor s2\<rparr>" by auto
        from openTag_read [OF ot] a(4) lt_read
        have src: "take (cursor s2) source = render (sp @ [OpenTag tag other])"
          and c2: "cursor s2 \<le> length source"
          by (simp_all add: render_def)
        let ?s' = "s2\<lparr>openedQueue := openedQueue s2 @ [(tag, other)]\<rparr>"
        from st ok nslash nbang ot have st': "step vt source len opts s = Some (Continue ?s')"
          by simp
        have same: "result s2 = result s1" "cw s2 = cw s1" "current s2 = current s1"
          by (subst s2, simp)+
        have wf: "\<forall>p \<in> set (sp @ [OpenTag tag other]). wf_piece vt p" using sp(2) q by simp
        have ti: "text_inv vt source len ?s'"
          unfolding text_inv_def
          using src wf a same c2 by (intro conjI exI [of _ "sp @ [OpenTag tag other]"]) simp_all
        have le: "?p \<le> cursor s2" using openTag_cursor [OF ot] a(4) by simp
        have "cut_inv source ?s'" if "\<not> breakWords opts"
        proof -
          from k1 [OF that] obtain k where "k \<le> ?p" "vis (result s1) = text_of (take k source)"
            "k = 0 \<or> (k < length source \<and> \<not> isLetter (source ! k))" by blast
          with le show ?thesis unfolding cut_inv_def by (intro exI [of _ k]) (simp add: same)
        qed
        with ti st' show ?thesis by simp
      qed
    qed
  next
    case other
    let ?t = "s\<lparr>cursor := Suc ?p, cwEmpty := True\<rparr>"
    obtain ok s1 where fw: "(if \<not> isLetter ?c \<and> \<not> cwEmpty s
          then flushWord vt len opts ?t
          else (True, s\<lparr>cursor := Suc ?p\<rparr>)) = (ok, s1)"
      by (cases "if \<not> isLetter ?c \<and> \<not> cwEmpty s
          then flushWord vt len opts ?t
          else (True, s\<lparr>cursor := Suc ?p\<rparr>)")
    note st = step_other [OF other fw]
    have a: "vis (result s1) @ cw s1 = vis sp \<and> current s1 = int (length (vis (result s1)))
        \<and> current s1 \<le> len \<and> cursor s1 = Suc ?p
        \<and> (\<not> breakWords opts \<longrightarrow> cut_inv source (s1\<lparr>cursor := ?p\<rparr>))"
    proof (cases "\<not> isLetter ?c \<and> \<not> cwEmpty s")
      case True
      with fw have f: "flushWord vt len opts ?t = (ok, s1)" by simp
      from after_flush [OF f] True show ?thesis unfolding cut_inv_def by simp
    next
      case False
      with fw have "s1 = s\<lparr>cursor := Suc ?p\<rparr>" by auto
      with sp(3) cur cut show ?thesis unfolding cut_inv_def by simp
    qed
    show ?thesis
    proof (cases ok)
      case False
      with fw have f: "flushWord vt len opts ?t = (False, s1)" by (auto split: if_splits)
      with flushWord_False [OF f] have "\<not> fst (flushWord vt len opts s1)" "s1 = ?t" by simp_all
      with st False show ?thesis by simp
    next
      case True
      let ?s' = "s1\<lparr>cwEmpty := (if \<not> isWhitespace ?c then False else cwEmpty s1),
            cw := cw s1 @ [?c]\<rparr>"
      from st True have st': "step vt source len opts s = Some (Continue ?s')" by simp
      have src: "take (Suc ?p) source = render (sp @ [Text [?c]])"
        using next_char by (simp add: render_def)
      have wf: "\<forall>p \<in> set (sp @ [Text [?c]]). wf_piece vt p" using sp(2) other(1) by simp
      have ti: "text_inv vt source len ?s'"
        unfolding text_inv_def
        using src wf a guard(2) by (intro conjI exI [of _ "sp @ [Text [?c]]"]) simp_all
      have "cut_inv source ?s'" if "\<not> breakWords opts"
      proof -
        from a that obtain k where "k \<le> ?p" "vis (result s1) = text_of (take k source)"
          "k = 0 \<or> (k < length source \<and> \<not> isLetter (source ! k))"
          unfolding cut_inv_def by auto
        then show ?thesis unfolding cut_inv_def using a by (intro exI [of _ k]) simp
      qed
      with ti st' show ?thesis by simp
    qed
  qed
qed

lemma text_reaches:
  assumes "reaches vt source len opts init_state s"
    and "tags_only source" and "suffix opts = None" and "0 \<le> len"
  shows "text_inv vt source len s \<and> (\<not> breakWords opts \<longrightarrow> cut_inv source s)"
  using assms(1)
proof (induction rule: reaches.induct)
  case start
  have "text_inv vt source len init_state"
    unfolding text_inv_def using assms(4)
    by (intro conjI exI [of _ "[]"]) (simp_all add: init_state_def render_def)
  moreover have "cut_inv source init_state"
    unfolding cut_inv_def by (intro exI [of _ 0]) (simp add: init_state_def text_of_def)
  ultimately show ?case by simp
next
  case (iteration s s')
  from text_step [OF assms(2,3) _ _ iteration.hyps(2,3), of vt] iteration.IH iteration.hyps(4)
  show ?case by auto
qed

text \<open>
  For a source without \<^verbatim>\<open>&\<close> whose every \<^verbatim>\<open><\<close> starts a finished tag, no suffix and a
  length that is not negative: with \<^verbatim>\<open>breakWords\<close> false the visible text of the string
  returned is the visible text of a prefix of the source that is empty, the whole source,
  or ends before a character that is not a letter; with \<^verbatim>\<open>breakWords\<close> true it is the
  visible text of the source cut at the length.
\<close>

lemma tagged_text:
  assumes tags: "tags_only source" and none: "suffix (resolve_options options) = None"
    and len: "0 \<le> len"
    and run: "html_substring vt source len options = Some (Inr out)"
  shows "(\<not> breakWords (resolve_options options) \<longrightarrow>
        (\<exists>k. text_of out = text_of (take k source) \<and> k \<le> length source
           \<and> int (length (text_of out)) \<le> len
           \<and> (k = 0 \<or> k = length source \<or> \<not> isLetter (source ! k))))
     \<and> (breakWords (resolve_options options) \<longrightarrow>
          text_of out = take (nat len) (text_of source))"
proof -
  let ?opts = "resolve_options options"
  from html_substring_Inr [OF run] obtain ps where
    ps: "html_substring_pieces vt source len ?opts = Some (Inr ps)" and out: "out = render ps"
    by blast
  from ps html_substring_pieces_cases [of vt source len ?opts]
  obtain sf where ml: "mainloop vt source len ?opts init_state = Some (Inr sf)"
    and fin: "ps = finalize vt len ?opts sf" by auto
  have wfm: "well_formed_markup source" using tags unfolding tags_only_def by simp
  have sit: "suffix_is_text ?opts" using none by (simp add: suffix_is_text_def)
  from mainloop_tidy [OF wfm sit tidy_init ml] have "tidy vt sf" .
  from finalize_tidy [OF this sit] have wf: "\<forall>p \<in> set ps. wf_piece vt p" unfolding fin .
  have out_vis: "text_of out = vis ps" unfolding out by (rule text_of_render [OF wf])
  note inv = text_reaches [OF _ tags none len, of vt]
  have "\<exists>s. text_inv vt source len s \<and> (\<not> breakWords ?opts \<longrightarrow> cut_inv source s)
      \<and> result sf = result s \<and> cw sf = cw s \<and> current sf = current s
      \<and> ((\<not> (current s < len \<and> cursor s < length source))
          \<or> (current s < len \<and> \<not> fst (flushWord vt len ?opts sf)))"
    using mainloop_cases [of vt source len ?opts init_state]
  proof (elim disjE exE conjE)
    fix s
    assume "reaches vt source len ?opts init_state s"
      "\<not> (current s < len \<and> cursor s < length source)"
      "mainloop vt source len ?opts init_state = Some (Inr s)"
    with inv [of s] ml show ?thesis by (intro exI [of _ s]) simp
  next
    fix s sf'
    assume r: "reaches vt source len ?opts init_state s"
      and g: "current s < len" "cursor s < length source"
      and b: "step vt source len ?opts s = Some (Break sf')"
      and "mainloop vt source len ?opts init_state = Some (Inr sf')"
    with ml have sf': "sf' = sf" by simp
    from inv [OF r] have i: "text_inv vt source len s" "\<not> breakWords ?opts \<longrightarrow> cut_inv source s"
      by simp_all
    from text_step [OF tags none i g] b sf'
    have "result sf = result s" "cw sf = cw s" "current sf = current s"
      "\<not> fst (flushWord vt len ?opts sf)" by auto
    with i g(1) show ?thesis by (intro exI [of _ s]) simp
  next
    fix s e
    assume "mainloop vt source len ?opts init_state = Some (Inl e)"
    with ml show ?thesis by simp
  qed
  then obtain s where ti: "text_inv vt source len s"
    and ci: "\<not> breakWords ?opts \<Longrightarrow> cut_inv source s"
    and same: "result sf = result s" "cw sf = cw s" "current sf = current s"
    and how: "(\<not> (current s < len \<and> cursor s < length source))
          \<or> (current s < len \<and> \<not> fst (flushWord vt len ?opts sf))"
    by blast
  from ti obtain sp where sp: "take (cursor s) source = render sp" "\<forall>p \<in> set sp. wf_piece vt p"
      "vis sp = vis (result s) @ cw s"
    and cur: "current s = int (length (vis (result s)))" "current s \<le> len"
      "cursor s \<le> length source"
    unfolding text_inv_def by blast
  let ?V = "vis (result s)"
  define t1 where "t1 = openTags vt True sf"
  obtain flushed s2 where fw: "flushWord vt len ?opts t1 = (flushed, s2)"
    by (cases "flushWord vt len ?opts t1")
  have fin2: "finalize vt len ?opts sf = result s2 @ map Closer (rev (closeQueue s2))"
    unfolding finalize_def Let_def t1_def [symmetric] fw prod.case
      getResultWithSuffixAfterClosingTags_def getResultWithSuffixBeforeClosingTags_def
    using none by (simp add: addSuffix_def)
  have out_text: "text_of out = vis (result s2)"
    unfolding out_vis fin fin2 by (simp add: vis_closers)
  from openTags_effect [of sf vt True] obtain n where
    "openTags vt True sf = sf\<lparr>openedQueue := drop n (openedQueue sf),
         result := result sf @ opened (take n (openedQueue sf)),
         closeQueue := closeQueue sf @ closers_of vt (take n (openedQueue sf))\<rparr>" by blast
  then have t1: "vis (result t1) = ?V" "cw t1 = cw s" "current t1 = current s"
    unfolding t1_def using same by (simp_all add: vis_opened)
  have pre: "current t1 = int (length (vis (result t1)))" "current t1 \<le> len"
    using t1 cur by simp_all
  note f = flushWord_text [OF fw pre]
  have again: "fst (flushWord vt len ?opts t1) = fst (flushWord vt len ?opts sf)"
    by (rule flushWord_same_outcome) (simp_all add: t1 same)
  show ?thesis
  proof (intro conjI impI)
    assume bw: "breakWords ?opts"
    have stop: "\<not> (current s < len \<and> cursor s < length source)"
    proof (rule ccontr)
      assume "\<not> \<not> (current s < len \<and> cursor s < length source)"
      with how have g: "current s < len" and failed: "\<not> fst (flushWord vt len ?opts sf)" by auto
      obtain ok' s' where fs: "flushWord vt len ?opts sf = (ok', s')"
        by (cases "flushWord vt len ?opts sf")
      from g same(3) have "current sf < len" by simp
      from flushWord_break_ok [OF bw this fs] failed fs show False by simp
    qed
    let ?L = "nat len"
    have "vis (result s2) = ?V @ take (nat (len - current s)) (cw s)"
      using f(7) [OF bw] t1 by simp
    also have "nat (len - current s) = ?L - length ?V" using cur(1,2) by simp
    also have "?V @ take (?L - length ?V) (cw s) = take ?L (?V @ cw s)"
      using cur(1,2) by simp
    finally have written: "vis (result s2) = take ?L (vis sp)" unfolding sp(3) .
    have "source = render sp @ drop (cursor s) source"
      using sp(1) append_take_drop_id [of "cursor s" source] by simp
    then have "text_of source = read_text Outside (render sp @ drop (cursor s) source)"
      unfolding text_of_def by simp
    then have whole: "text_of source = vis sp @ read_text Outside (drop (cursor s) source)"
      unfolding text_render [OF sp(2)] .
    have "take ?L (text_of source) = take ?L (vis sp)"
    proof (cases "cursor s < length source")
      case True
      with stop cur(2) have "current s = len" by simp
      then have "?L = length ?V" using cur(1) by simp
      then show ?thesis unfolding whole sp(3) by simp
    next
      case False
      with cur(3) show ?thesis unfolding whole by simp
    qed
    with written show "text_of out = take (nat len) (text_of source)" unfolding out_text by simp
  next
    assume nb: "\<not> breakWords ?opts"
    from ci [OF nb] obtain k where k: "k \<le> cursor s" "?V = text_of (take k source)"
      "k = 0 \<or> (k < length source \<and> \<not> isLetter (source ! k))"
      unfolding cut_inv_def by blast
    have fits: "int (length (vis (result s2))) \<le> len" using f(2,3) by simp
    have kept: "\<exists>k. vis (result s2) = text_of (take k source) \<and> k \<le> length source
           \<and> (k = 0 \<or> k = length source \<or> \<not> isLetter (source ! k))"
      if "vis (result s2) = ?V"
      using that k cur(3) by (intro exI [of _ k]) auto
    from f(6) [OF nb] have "\<exists>k. vis (result s2) = text_of (take k source) \<and> k \<le> length source
           \<and> (k = 0 \<or> k = length source \<or> \<not> isLetter (source ! k))"
    proof (elim disjE conjE)
      assume "vis (result s2) = vis (result t1)"
      with t1(1) kept show ?thesis by simp
    next
      assume w: "vis (result s2) = vis (result t1) @ cw t1"
      show ?thesis
      proof (cases "cw s = []")
        case True
        with w t1 kept show ?thesis by simp
      next
        case False
        have "flushed"
        proof (rule ccontr)
          assume "\<not> flushed"
          from f(5) [OF this] w t1 False show False by simp
        qed
        with fw again have "fst (flushWord vt len ?opts sf)" by simp
        with how have stop: "\<not> (current s < len \<and> cursor s < length source)" by auto
        have "cursor s = length source"
        proof (rule ccontr)
          assume "cursor s \<noteq> length source"
          with cur(3) stop cur(2) have "current s = len" by simp
          with fits w t1 cur(1) False show False by simp
        qed
        moreover have "vis (result s2) = text_of (take (cursor s) source)"
          unfolding w t1 sp(1) text_of_render [OF sp(2)] sp(3) ..
        ultimately show ?thesis by (intro exI [of _ "length source"]) simp
      qed
    qed
    with fits show "\<exists>k. text_of out = text_of (take k source) \<and> k \<le> length source
           \<and> int (length (text_of out)) \<le> len
           \<and> (k = 0 \<or> k = length source \<or> \<not> isLetter (source ! k))"
      unfolding out_text by auto
  qed
qed

section \<open>The claims\<close>

text \<open>
  C1. The claim: \<^verbatim>\<open>html_substring("A&amp;B", 2)\<close> returns \<^verbatim>\<open>A&amp;\<close>, the pending character
  \<^verbatim>\<open>A\<close> before the entity. The program returns \<^verbatim>\<open>&amp;A\<close>: the \<^verbatim>\<open>'&'\<close> case writes the
  entity to the result without flushing the word buffer first (the \<^verbatim>\<open>'<'\<close> case does
  flush it), so the pending \<^verbatim>\<open>A\<close> is written after the entity, at the finalization.
\<close>

theorem C1_entity_written_before_pending_word:
  "html_substring voidHtmlTags ''A&amp;B'' 2 default_options_arg = Some (Inr ''&amp;A'')"
  by code_simp




text \<open>
  C3. The claim: a comment \<^verbatim>\<open><!--body-->\<close> is consumed verbatim, every character of its body
  copied to the result and counted, up to but not including the terminator \<^verbatim>\<open>-->\<close>. The
  program does not do so. The copying loop runs while \<^verbatim>\<open>chars[i] !== '-' && ...\<close>, and it
  is entered with \<^verbatim>\<open>i\<close> on the second \<^verbatim>\<open>-\<close> of \<^verbatim>\<open><!--\<close>, so it never runs; the position then
  moves two further, past the first character of the body, and the rest of the comment is
  scanned as ordinary text. For \<^verbatim>\<open><!--body-->\<close> the result is \<^verbatim>\<open>ody-->\<close>: the \<^verbatim>\<open>b\<close> is lost
  and the terminator is written.
\<close>

theorem C3_comment_not_copied_verbatim:
  "html_substring voidHtmlTags ''<!--body-->'' 100 default_options_arg = Some (Inr ''ody-->'')
   \<and> html_substring_pieces voidHtmlTags ''<!--body-->'' 100 DEFAULT_OPTIONS
       = Some (Inr [Text ''ody'', Text ''-'', Text ''-'', Text ''>''])"
  by code_simp

text \<open>
  C4. The claim: for a source without \<^verbatim>\<open><\<close> and \<^verbatim>\<open>&\<close> the result is the prefix of length
  \<^verbatim>\<open>min(length, sourceLength)\<close>, with the suffix appended once when the source was cut.
  The suffix is missing when the cut falls inside the last word read: the final
  \<^verbatim>\<open>flushWord\<close> writes the part of the word that fits and reports success, and the suffix
  is only added when it reports failure. \<^verbatim>\<open>html_substring("abcdefghij", 3, "...")\<close> is
  \<^verbatim>\<open>abc\<close> with no suffix, although a cut at a word boundary gets one:
  \<^verbatim>\<open>html_substring("abc def", 3, "...")\<close> is \<^verbatim>\<open>abc...\<close>. The rest of the claim holds
  (\<open>plain_text_prefix\<close>): the string is the prefix, and a suffix follows it at most once
  and only when the source was cut.
\<close>

theorem C4_suffix_missing_after_cut_word:
  "html_substring voidHtmlTags ''abcdefghij'' 3 (SuffixString ''...'') = Some (Inr ''abc'')
   \<and> html_substring voidHtmlTags ''abc def'' 3 (SuffixString ''...'') = Some (Inr ''abc...'')"
  by code_simp

text \<open>
  C5. \<^verbatim>\<open>html_substring\<close> throws exactly when the main loop, its condition holding (the
  budget not yet used up), comes to stand at a closing tag of an element that has to have
  a closing tag and that has no entry on the close-tag stack. The error then carries the
  name read and the position of the \<^verbatim>\<open><\<close> of the closing tag, and the run returns the error
  and no string (the result is \<open>Inl\<close>). No other condition throws: a run that ends in
  an error has reached such a state.
\<close>

theorem C5_error_iff_unmatched_closing_tag:
  "html_substring vt source len options = Some (Inl e) \<longleftrightarrow>
     (\<exists>s. reaches vt source len (resolve_options options) init_state s
        \<and> current s < len \<and> cursor s < length source
        \<and> unmatched_closing_tag vt source len (resolve_options options) s e)"
proof -
  have "html_substring vt source len options = Some (Inl e) \<longleftrightarrow>
      mainloop vt source len (resolve_options options) init_state = Some (Inl e)"
    using html_substring_pieces_cases [of vt source len "resolve_options options"]
    unfolding html_substring_def by auto
  then show ?thesis unfolding mainloop_error step_Throw .
qed

theorem C5_error_iff_unmatched_closing_tag_witness:
  "\<exists>s. reaches voidHtmlTags ''<b>Hi</span>'' 10 (resolve_options default_options_arg) init_state s
      \<and> current s < 10 \<and> cursor s < length ''<b>Hi</span>''
      \<and> unmatched_closing_tag voidHtmlTags ''<b>Hi</span>'' 10 (resolve_options default_options_arg) s
           (HtmlSubstringError ''span'' 5)"
proof -
  have "html_substring voidHtmlTags ''<b>Hi</span>'' 10 default_options_arg
      = Some (Inl (HtmlSubstringError ''span'' 5))"
    by code_simp
  then show ?thesis
    using C5_error_iff_unmatched_closing_tag
      [of voidHtmlTags "''<b>Hi</span>''" 10 default_options_arg "HtmlSubstringError ''span'' 5"]
    by simp
qed

text \<open>
  C6. An entity reference is written unsplit and costs one unit. When the main loop, its
  condition holding, stands at an \<^verbatim>\<open>&\<close> that is followed by a name without whitespace and
  a \<^verbatim>\<open>;\<close>, the iteration appends the \<^verbatim>\<open>&\<close> and then the name with its \<^verbatim>\<open>;\<close> to the result,
  adds exactly one to \<open>current\<close> however long the name is, and moves past the \<^verbatim>\<open>;\<close>.
  The result is append-only, so the reference stands contiguous in every string the run
  returns, right after what the result held when the \<^verbatim>\<open>&\<close> was reached.
\<close>

theorem C6_entity_unsplit_one_unit:
  assumes "reaches vt source len (resolve_options options) init_state s"
    and "current s < len" and "cursor s < length source"
    and "source ! cursor s = CHR ''&''"
    and "drop (Suc (cursor s)) source = name @ CHR '';'' # rest"
    and "\<forall>c \<in> set name. \<not> isWhitespace c \<and> c \<noteq> CHR '';''"
  shows "\<exists>s'. step vt source len (resolve_options options) s = Some (Continue s')
      \<and> result s' = result s @ [Text ''&'', Entity (name @ '';'')]
      \<and> current s' = current s + 1
      \<and> cursor s' = cursor s + length name + 2
      \<and> (\<forall>out. html_substring vt source len options = Some (Inr out) \<longrightarrow>
            (\<exists>post. out = render (result s) @ ''&'' @ name @ '';'' @ post))"
proof -
  let ?opts = "resolve_options options"
  let ?s' = "s\<lparr>cursor := cursor s + length name + 2, current := current s + 1,
               result := result s @ [Text ''&'', Entity (name @ '';'')]\<rparr>"
  have el: "entity_loop source (cursor s) (Suc (cursor s)) (result s @ [Text ''&'']) =
      (cursor s + length name + 2, result s @ [Text ''&'', Entity (name @ '';'')])"
    using entity_loop_found [OF assms(5,6), of "cursor s" "result s @ [Text ''&'']"] assms(5)
    by simp
  have st: "step vt source len ?opts s = Some (Continue ?s')"
    unfolding step_amp [OF assms(4) el] ..
  have out: "\<exists>post. out = render (result s) @ ''&'' @ name @ '';'' @ post"
    if "html_substring vt source len options = Some (Inr out)" for out
  proof -
    from html_substring_Inr [OF that] obtain ps where
      ps: "html_substring_pieces vt source len ?opts = Some (Inr ps)" and o: "out = render ps"
      by blast
    from ps html_substring_pieces_cases [of vt source len ?opts] obtain sf where
      ml: "mainloop vt source len ?opts init_state = Some (Inr sf)"
      and f: "ps = finalize vt len ?opts sf" by auto
    have "reaches vt source len ?opts init_state ?s'"
      using assms(1-3) st by (rule reaches.iteration)
    from reaches_mainloop [OF this] ml have "mainloop vt source len ?opts ?s' = Some (Inr sf)"
      by simp
    from mainloop_extends [OF this] obtain qs where "result sf = result ?s' @ qs"
      unfolding extends_def by blast
    moreover from finalize_extends obtain post where "finalize vt len ?opts sf = result sf @ post"
      by blast
    ultimately have "ps = result s @ [Text ''&'', Entity (name @ '';'')] @ qs @ post"
      using f by simp
    then have "out = render (result s) @ ''&'' @ name @ '';'' @ render (qs @ post)"
      unfolding o by (simp add: render_def)
    then show ?thesis by blast
  qed
  show ?thesis
    by (intro exI [of _ ?s'] conjI allI impI st out) simp_all
qed

theorem C6_entity_unsplit_one_unit_witness:
  "\<exists>s'. step voidHtmlTags ''A&amp;B'' 2 (resolve_options default_options_arg)
         (init_state\<lparr>cursor := 1, cw := ''A'', cwEmpty := False\<rparr>) = Some (Continue s')
      \<and> result s' = [Text ''&'', Entity ''amp;'']
      \<and> current s' = 1
      \<and> cursor s' = 1 + length ''amp'' + 2
      \<and> (\<exists>post. ''&amp;A'' = ''&'' @ ''amp'' @ '';'' @ post)"
proof -
  let ?opts = "resolve_options default_options_arg"
  let ?s = "init_state\<lparr>cursor := 1, cw := ''A'', cwEmpty := False\<rparr>"
  have first: "step voidHtmlTags ''A&amp;B'' 2 ?opts init_state = Some (Continue ?s)"
    by code_simp
  have r: "reaches voidHtmlTags ''A&amp;B'' 2 ?opts init_state ?s"
    by (rule reaches.iteration [OF reaches.start _ _ first]) (simp_all add: init_state_def)
  have out: "html_substring voidHtmlTags ''A&amp;B'' 2 default_options_arg = Some (Inr ''&amp;A'')"
    by code_simp
  have "\<exists>s'. step voidHtmlTags ''A&amp;B'' 2 ?opts ?s = Some (Continue s')
      \<and> result s' = result ?s @ [Text ''&'', Entity (''amp'' @ '';'')]
      \<and> current s' = current ?s + 1
      \<and> cursor s' = cursor ?s + length ''amp'' + 2
      \<and> (\<forall>out. html_substring voidHtmlTags ''A&amp;B'' 2 default_options_arg = Some (Inr out) \<longrightarrow>
            (\<exists>post. out = render (result ?s) @ ''&'' @ ''amp'' @ '';'' @ post))"
    by (rule C6_entity_unsplit_one_unit [OF r, where rest = "''B''"])
       (simp_all add: init_state_def isWhitespace_def)
  then show ?thesis
    unfolding out by (simp add: init_state_def render_def)
qed

text \<open>
  C7. The claim: with a suffix configured, the suffix appears exactly once in the string
  returned. \<^verbatim>\<open>html_substring("abc", 10, "...")\<close> is \<^verbatim>\<open>abc\<close>: nothing was cut there, no path
  that appends the suffix was taken, and the string returned holds no suffix.
\<close>

theorem C7_suffix_absent_counterexample:
  "html_substring voidHtmlTags ''abc'' 10 (SuffixString ''...'') = Some (Inr ''abc'')
   \<and> html_substring_pieces voidHtmlTags ''abc'' 10 (resolve_options (SuffixString ''...''))
       = Some (Inr [Text ''abc''])
   \<and> suffix_count [Text ''abc''] = 0"
  by code_simp

text \<open>
  C7, as amended: the suffix is appended at most once. Among the pieces the returned
  string is made of, at most one is the suffix, whatever the source, the length and the
  options: once \<open>suffixAdded\<close> is set, neither the closing-tag case nor the finalization
  appends it again. Read off the string returned alone: when a suffix is configured, the
  string is \<open>pre @ suffix @ post\<close> or \<open>pre @ post\<close> for two strings \<open>pre\<close> and \<open>post\<close> that
  do not depend on the text of the suffix, that is, the same call with any other suffix
  text \<open>x\<close> returns \<open>pre @ x @ post\<close>, respectively \<open>pre @ post\<close>.
\<close>

theorem C7_suffix_at_most_once:
  assumes "html_substring vt source len options = Some (Inr out)"
  shows "(\<exists>ps. html_substring_pieces vt source len (resolve_options options) = Some (Inr ps)
        \<and> out = render ps \<and> suffix_count ps \<le> 1)
    \<and> (\<forall>y. suffix (resolve_options options) = Some y \<longrightarrow>
          (\<exists>pre post n. n \<le> (1::nat) \<and> out = pre @ concat (replicate n y) @ post
             \<and> (\<forall>x. html_substring vt source len (with_suffix x options)
                   = Some (Inr (pre @ concat (replicate n x) @ post)))))"
  using html_substring_Inr [OF assms] pieces_written suffix_text_once [OF assms] by blast

theorem C7_suffix_at_most_once_witness:
  "(\<exists>ps. html_substring_pieces voidHtmlTags ''<b>abc</b> def'' 3
          (resolve_options (PartialOptions None (Some (Some ''...'')) (Some True))) = Some (Inr ps)
        \<and> ''<b>abc...</b>'' = render ps \<and> suffix_count ps \<le> 1)
   \<and> (\<exists>pre post n. n \<le> (1::nat) \<and> ''<b>abc...</b>'' = pre @ concat (replicate n ''...'') @ post
         \<and> (\<forall>x. html_substring voidHtmlTags ''<b>abc</b> def'' 3
                 (with_suffix x (PartialOptions None (Some (Some ''...'')) (Some True)))
               = Some (Inr (pre @ concat (replicate n x) @ post))))"
proof -
  let ?options = "PartialOptions None (Some (Some ''...'')) (Some True)"
  have run: "html_substring voidHtmlTags ''<b>abc</b> def'' 3 ?options = Some (Inr ''<b>abc...</b>'')"
    by code_simp
  have configured: "suffix (resolve_options ?options) = Some ''...''" by simp
  note both = C7_suffix_at_most_once [OF run]
  show ?thesis
    by (rule conjI [OF both [THEN conjunct1] both [THEN conjunct2, THEN spec, THEN mp, OF configured]])
qed

text \<open>
  C8. The claim: with \<^verbatim>\<open>breakWords\<close> false no partial word ever appears in the output, for
  every source and length. The program's word is its word buffer, and the buffer is closed
  at every character that is not a letter, a digit as well as a blank. Of
  \<^verbatim>\<open>abc123 def\<close> at length 4 it writes \<^verbatim>\<open>abc\<close>, then \<^verbatim>\<open>1\<close>, and returns \<^verbatim>\<open>abc1\<close>: the first
  four characters of the source, cut inside \<^verbatim>\<open>abc123\<close>. A tag closes the buffer as well:
  \<^verbatim>\<open>foo<b>bar</b> baz\<close> at length 4 gives \<^verbatim>\<open>foo\<close>.
\<close>

theorem C8_token_cut_counterexample:
  "html_substring voidHtmlTags ''abc123 def'' 4 (PartialOptions (Some False) None None)
     = Some (Inr ''abc1'')
   \<and> ''abc1'' = take 4 ''abc123 def''
   \<and> cuts_token ''abc123 def'' 4
   \<and> html_substring voidHtmlTags ''foo<b>bar</b> baz'' 4 (PartialOptions (Some False) None None)
     = Some (Inr ''foo'')"
  by code_simp

text \<open>
  C8, as amended. One call of \<^verbatim>\<open>flushWord\<close>, in any state: with \<^verbatim>\<open>breakWords\<close> false it
  writes the whole word buffer if \<^verbatim>\<open>current + cw.length <= length\<close> and otherwise fails and
  changes nothing; with \<^verbatim>\<open>breakWords\<close> true and budget left it writes exactly the leading
  characters of the buffer that the remaining budget allows.

  The string returned, for a source without \<^verbatim>\<open><\<close> and \<^verbatim>\<open>&\<close> and a length that is not
  negative. With \<^verbatim>\<open>breakWords\<close> false it is the first \<open>k\<close> characters of the source, followed
  by the suffix or by nothing, where \<open>k\<close> is at most the length; unless \<open>k\<close> is 0, the
  character after the cut, if there is one, is not a letter (no run of letters is cut);
  and no word buffer closed further on within the length is left out (\<open>closes_word\<close>).
  With \<^verbatim>\<open>breakWords\<close> true it is exactly the first \<^verbatim>\<open>min(length, sourceLength)\<close> characters
  of the source, followed by the suffix or by nothing: the last word is cut at the
  remaining budget. In both cases the suffix follows only if the source is longer than the
  length.

  The string returned, for a source with tags (no \<^verbatim>\<open>&\<close>, every \<^verbatim>\<open><\<close> the start of a
  finished tag: \<open>tags_only\<close>), no suffix and a length that is not negative. With
  \<^verbatim>\<open>breakWords\<close> false its visible text has at most the length asked for and is the
  visible text of a prefix of the source that is empty, or the whole source, or ends
  before a character that is not a letter, the \<^verbatim>\<open><\<close> of a tag included: a run of letters
  that no tag interrupts is not cut. With \<^verbatim>\<open>breakWords\<close> true its visible text is the
  visible text of the source cut at the length.
\<close>

theorem C8_word_buffer_whole_or_cut:
  "(flushWord vt len opts s = (ok, s') \<longrightarrow>
      (cw s = [] \<longrightarrow> ok \<and> s' = s)
    \<and> (\<not> breakWords opts \<and> cw s \<noteq> [] \<and> current s + int (length (cw s)) \<le> len \<longrightarrow>
          ok \<and> result s' = result s @ opened (openedQueue s) @ [Text (cw s)]
          \<and> cw s' = [] \<and> current s' = current s + int (length (cw s)))
    \<and> (\<not> breakWords opts \<and> cw s \<noteq> [] \<and> len < current s + int (length (cw s)) \<longrightarrow>
          \<not> ok \<and> s' = s)
    \<and> (breakWords opts \<and> cw s \<noteq> [] \<and> current s < len \<longrightarrow>
          ok \<and> result s' = result s @ opened (openedQueue s) @ [Text (take (nat (len - current s)) (cw s))]
          \<and> cw s' = drop (nat (len - current s)) (cw s)
          \<and> current s' = min len (current s + int (length (cw s))))
    \<and> (breakWords opts \<and> cw s \<noteq> [] \<and> len \<le> current s \<longrightarrow> \<not> ok \<and> s' = s))
   \<and> (CHR ''<'' \<notin> set source \<and> CHR ''&'' \<notin> set source \<and> 0 \<le> n
        \<and> \<not> breakWords (resolve_options options) \<longrightarrow>
      (\<exists>k sfx. html_substring vt source n options = Some (Inr (take k source @ sfx))
         \<and> int k \<le> n \<and> k \<le> length source
         \<and> (k = 0 \<or> k = length source \<or> \<not> isLetter (source ! k))
         \<and> (\<forall>j. k < j \<and> j \<le> length source \<and> int j \<le> n \<longrightarrow> \<not> closes_word source k j)
         \<and> (sfx = [] \<or> (suffix (resolve_options options) = Some sfx \<and> n < int (length source)))))
   \<and> (CHR ''<'' \<notin> set source \<and> CHR ''&'' \<notin> set source \<and> 0 \<le> n
        \<and> breakWords (resolve_options options) \<longrightarrow>
      (\<exists>sfx. html_substring vt source n options = Some (Inr (take (nat n) source @ sfx))
         \<and> (sfx = [] \<or> (suffix (resolve_options options) = Some sfx \<and> n < int (length source)))))
   \<and> (tags_only source \<and> suffix (resolve_options options) = None \<and> 0 \<le> n
        \<and> html_substring vt source n options = Some (Inr out) \<longrightarrow>
      (\<not> breakWords (resolve_options options) \<longrightarrow>
        (\<exists>k. text_of out = text_of (take k source) \<and> k \<le> length source
           \<and> int (length (text_of out)) \<le> n
           \<and> (k = 0 \<or> k = length source \<or> \<not> isLetter (source ! k))))
     \<and> (breakWords (resolve_options options) \<longrightarrow>
          text_of out = take (nat n) (text_of source)))"
proof (intro conjI)
  show "flushWord vt len opts s = (ok, s') \<longrightarrow>
      (cw s = [] \<longrightarrow> ok \<and> s' = s)
    \<and> (\<not> breakWords opts \<and> cw s \<noteq> [] \<and> current s + int (length (cw s)) \<le> len \<longrightarrow>
          ok \<and> result s' = result s @ opened (openedQueue s) @ [Text (cw s)]
          \<and> cw s' = [] \<and> current s' = current s + int (length (cw s)))
    \<and> (\<not> breakWords opts \<and> cw s \<noteq> [] \<and> len < current s + int (length (cw s)) \<longrightarrow>
          \<not> ok \<and> s' = s)
    \<and> (breakWords opts \<and> cw s \<noteq> [] \<and> current s < len \<longrightarrow>
          ok \<and> result s' = result s @ opened (openedQueue s) @ [Text (take (nat (len - current s)) (cw s))]
          \<and> cw s' = drop (nat (len - current s)) (cw s)
          \<and> current s' = min len (current s + int (length (cw s))))
    \<and> (breakWords opts \<and> cw s \<noteq> [] \<and> len \<le> current s \<longrightarrow> \<not> ok \<and> s' = s)"
    by (rule impI) (rule flushWord_whole_or_cut)
next
  show "CHR ''<'' \<notin> set source \<and> CHR ''&'' \<notin> set source \<and> 0 \<le> n
        \<and> \<not> breakWords (resolve_options options) \<longrightarrow>
      (\<exists>k sfx. html_substring vt source n options = Some (Inr (take k source @ sfx))
         \<and> int k \<le> n \<and> k \<le> length source
         \<and> (k = 0 \<or> k = length source \<or> \<not> isLetter (source ! k))
         \<and> (\<forall>j. k < j \<and> j \<le> length source \<and> int j \<le> n \<longrightarrow> \<not> closes_word source k j)
         \<and> (sfx = [] \<or> (suffix (resolve_options options) = Some sfx \<and> n < int (length source))))"
  proof (intro impI, elim conjE)
    assume "CHR ''<'' \<notin> set source" "CHR ''&'' \<notin> set source" "0 \<le> n"
      "\<not> breakWords (resolve_options options)"
    then show "\<exists>k sfx. html_substring vt source n options = Some (Inr (take k source @ sfx))
         \<and> int k \<le> n \<and> k \<le> length source
         \<and> (k = 0 \<or> k = length source \<or> \<not> isLetter (source ! k))
         \<and> (\<forall>j. k < j \<and> j \<le> length source \<and> int j \<le> n \<longrightarrow> \<not> closes_word source k j)
         \<and> (sfx = [] \<or> (suffix (resolve_options options) = Some sfx \<and> n < int (length source)))"
      by (rule plain_text_whole_words)
  qed
next
  show "CHR ''<'' \<notin> set source \<and> CHR ''&'' \<notin> set source \<and> 0 \<le> n
        \<and> breakWords (resolve_options options) \<longrightarrow>
      (\<exists>sfx. html_substring vt source n options = Some (Inr (take (nat n) source @ sfx))
         \<and> (sfx = [] \<or> (suffix (resolve_options options) = Some sfx \<and> n < int (length source))))"
  proof (intro impI, elim conjE)
    assume "CHR ''<'' \<notin> set source" "CHR ''&'' \<notin> set source" "0 \<le> n"
      "breakWords (resolve_options options)"
    then show "\<exists>sfx. html_substring vt source n options = Some (Inr (take (nat n) source @ sfx))
         \<and> (sfx = [] \<or> (suffix (resolve_options options) = Some sfx \<and> n < int (length source)))"
      by (rule plain_text_prefix)
  qed
next
  show "tags_only source \<and> suffix (resolve_options options) = None \<and> 0 \<le> n
        \<and> html_substring vt source n options = Some (Inr out) \<longrightarrow>
      (\<not> breakWords (resolve_options options) \<longrightarrow>
        (\<exists>k. text_of out = text_of (take k source) \<and> k \<le> length source
           \<and> int (length (text_of out)) \<le> n
           \<and> (k = 0 \<or> k = length source \<or> \<not> isLetter (source ! k))))
     \<and> (breakWords (resolve_options options) \<longrightarrow>
          text_of out = take (nat n) (text_of source))"
  proof (intro impI, elim conjE)
    assume "tags_only source" "suffix (resolve_options options) = None" "0 \<le> n"
      "html_substring vt source n options = Some (Inr out)"
    then show "(\<not> breakWords (resolve_options options) \<longrightarrow>
        (\<exists>k. text_of out = text_of (take k source) \<and> k \<le> length source
           \<and> int (length (text_of out)) \<le> n
           \<and> (k = 0 \<or> k = length source \<or> \<not> isLetter (source ! k))))
     \<and> (breakWords (resolve_options options) \<longrightarrow>
          text_of out = take (nat n) (text_of source))"
      by (rule tagged_text)
  qed
qed

theorem C8_word_buffer_whole_or_cut_witness:
  "(\<exists>k sfx. html_substring voidHtmlTags ''foo bar baz'' 8 (PartialOptions (Some False) None None)
           = Some (Inr (take k ''foo bar baz'' @ sfx))
         \<and> int k \<le> 8 \<and> k \<le> length ''foo bar baz''
         \<and> (k = 0 \<or> k = length ''foo bar baz'' \<or> \<not> isLetter (''foo bar baz'' ! k))
         \<and> (\<forall>j. k < j \<and> j \<le> length ''foo bar baz'' \<and> int j \<le> 8
               \<longrightarrow> \<not> closes_word ''foo bar baz'' k j)
         \<and> (sfx = [] \<or> (suffix (resolve_options (PartialOptions (Some False) None None)) = Some sfx
               \<and> 8 < int (length ''foo bar baz''))))
   \<and> (\<exists>sfx. html_substring voidHtmlTags ''foo bar baz'' 8 default_options_arg
           = Some (Inr (take (nat 8) ''foo bar baz'' @ sfx))
         \<and> (sfx = [] \<or> (suffix (resolve_options default_options_arg) = Some sfx
               \<and> 8 < int (length ''foo bar baz''))))
   \<and> (\<exists>k. text_of ''<p>Hello <b>big</b></p>'' = text_of (take k ''<p>Hello <b>big world</b></p>'')
         \<and> k \<le> length ''<p>Hello <b>big world</b></p>''
         \<and> int (length (text_of ''<p>Hello <b>big</b></p>'')) \<le> 10
         \<and> (k = 0 \<or> k = length ''<p>Hello <b>big world</b></p>''
              \<or> \<not> isLetter (''<p>Hello <b>big world</b></p>'' ! k)))
   \<and> text_of ''foo<b>b</b>'' = take (nat 4) (text_of ''foo<b>bar</b> baz'')
   \<and> \<not> fst (flushWord voidHtmlTags 3 (DEFAULT_OPTIONS\<lparr>breakWords := False\<rparr>) (init_state\<lparr>cw := ''Hello''\<rparr>))
   \<and> snd (flushWord voidHtmlTags 3 (DEFAULT_OPTIONS\<lparr>breakWords := False\<rparr>) (init_state\<lparr>cw := ''Hello''\<rparr>))
       = init_state\<lparr>cw := ''Hello''\<rparr>
   \<and> fst (flushWord voidHtmlTags 3 DEFAULT_OPTIONS (init_state\<lparr>cw := ''Hello''\<rparr>))
   \<and> result (snd (flushWord voidHtmlTags 3 DEFAULT_OPTIONS (init_state\<lparr>cw := ''Hello''\<rparr>)))
       = [Text ''Hel'']
   \<and> cw (snd (flushWord voidHtmlTags 3 DEFAULT_OPTIONS (init_state\<lparr>cw := ''Hello''\<rparr>))) = ''lo''
   \<and> current (snd (flushWord voidHtmlTags 3 DEFAULT_OPTIONS (init_state\<lparr>cw := ''Hello''\<rparr>))) = 3"
proof -
  let ?src = "''foo bar baz''"
  let ?tagged = "''<p>Hello <b>big world</b></p>''"
  let ?whole = "PartialOptions (Some False) None None"
  let ?st = "init_state\<lparr>cw := ''Hello''\<rparr>"
  let ?keep = "DEFAULT_OPTIONS\<lparr>breakWords := False\<rparr>"
  have whole: "CHR ''<'' \<notin> set ?src \<and> CHR ''&'' \<notin> set ?src \<and> (0::int) \<le> 8
      \<and> \<not> breakWords (resolve_options ?whole)"
    by simp
  have cut: "CHR ''<'' \<notin> set ?src \<and> CHR ''&'' \<notin> set ?src \<and> (0::int) \<le> 8
      \<and> breakWords (resolve_options default_options_arg)"
    by (simp add: default_options_arg_def DEFAULT_OPTIONS_def)
  have tagged_whole: "tags_only ?tagged \<and> suffix (resolve_options ?whole) = None \<and> (0::int) \<le> 10
      \<and> html_substring voidHtmlTags ?tagged 10 ?whole = Some (Inr ''<p>Hello <b>big</b></p>'')"
    by code_simp
  have tagged_cut: "tags_only ''foo<b>bar</b> baz'' \<and> suffix (resolve_options default_options_arg) = None
      \<and> (0::int) \<le> 4
      \<and> html_substring voidHtmlTags ''foo<b>bar</b> baz'' 4 default_options_arg
          = Some (Inr ''foo<b>b</b>'')"
    by code_simp
  have nb: "\<not> breakWords (resolve_options ?whole)" by simp
  have bw: "breakWords (resolve_options default_options_arg)"
    by (simp add: default_options_arg_def DEFAULT_OPTIONS_def)
  note at_whole = C8_word_buffer_whole_or_cut [where vt = voidHtmlTags and len = 3
      and opts = ?keep and s = ?st
      and ok = "fst (flushWord voidHtmlTags 3 ?keep ?st)"
      and s' = "snd (flushWord voidHtmlTags 3 ?keep ?st)"
      and source = ?src and n = 8 and options = ?whole]
  note at_cut = C8_word_buffer_whole_or_cut [where vt = voidHtmlTags and len = 3
      and opts = DEFAULT_OPTIONS and s = ?st
      and ok = "fst (flushWord voidHtmlTags 3 DEFAULT_OPTIONS ?st)"
      and s' = "snd (flushWord voidHtmlTags 3 DEFAULT_OPTIONS ?st)"
      and source = ?src and n = 8 and options = default_options_arg]
  note at_tagged_whole = C8_word_buffer_whole_or_cut [where vt = voidHtmlTags
      and source = ?tagged and n = 10 and options = ?whole and out = "''<p>Hello <b>big</b></p>''"]
  note at_tagged_cut = C8_word_buffer_whole_or_cut [where vt = voidHtmlTags
      and source = "''foo<b>bar</b> baz''" and n = 4 and options = default_options_arg
      and out = "''foo<b>b</b>''"]
  have w2: "\<exists>k sfx. html_substring voidHtmlTags ?src 8 ?whole = Some (Inr (take k ?src @ sfx))
         \<and> int k \<le> 8 \<and> k \<le> length ?src
         \<and> (k = 0 \<or> k = length ?src \<or> \<not> isLetter (?src ! k))
         \<and> (\<forall>j. k < j \<and> j \<le> length ?src \<and> int j \<le> 8 \<longrightarrow> \<not> closes_word ?src k j)
         \<and> (sfx = [] \<or> (suffix (resolve_options ?whole) = Some sfx \<and> 8 < int (length ?src)))"
    using at_whole [THEN conjunct2, THEN conjunct1, THEN mp, OF whole] .
  have w3: "\<exists>sfx. html_substring voidHtmlTags ?src 8 default_options_arg
           = Some (Inr (take (nat 8) ?src @ sfx))
         \<and> (sfx = [] \<or> (suffix (resolve_options default_options_arg) = Some sfx
               \<and> 8 < int (length ?src)))"
    using at_cut [THEN conjunct2, THEN conjunct2, THEN conjunct1, THEN mp, OF cut] .
  have w4: "\<exists>k. text_of ''<p>Hello <b>big</b></p>'' = text_of (take k ?tagged)
         \<and> k \<le> length ?tagged
         \<and> int (length (text_of ''<p>Hello <b>big</b></p>'')) \<le> 10
         \<and> (k = 0 \<or> k = length ?tagged \<or> \<not> isLetter (?tagged ! k))"
    using at_tagged_whole [THEN conjunct2, THEN conjunct2, THEN conjunct2, THEN mp, OF tagged_whole,
        THEN conjunct1, THEN mp, OF nb] .
  have w5: "text_of ''foo<b>b</b>'' = take (nat 4) (text_of ''foo<b>bar</b> baz'')"
    using at_tagged_cut [THEN conjunct2, THEN conjunct2, THEN conjunct2, THEN mp, OF tagged_cut,
        THEN conjunct2, THEN mp, OF bw] .
  have w1: "\<not> fst (flushWord voidHtmlTags 3 ?keep ?st)
      \<and> snd (flushWord voidHtmlTags 3 ?keep ?st) = ?st
      \<and> fst (flushWord voidHtmlTags 3 DEFAULT_OPTIONS ?st)
      \<and> result (snd (flushWord voidHtmlTags 3 DEFAULT_OPTIONS ?st)) = [Text ''Hel'']
      \<and> cw (snd (flushWord voidHtmlTags 3 DEFAULT_OPTIONS ?st)) = ''lo''
      \<and> current (snd (flushWord voidHtmlTags 3 DEFAULT_OPTIONS ?st)) = 3"
    using at_whole [THEN conjunct1] at_cut [THEN conjunct1]
    by (simp add: init_state_def DEFAULT_OPTIONS_def opened_def)
  show ?thesis by (rule conjI [OF w2 conjI [OF w3 conjI [OF w4 conjI [OF w5 w1]]]])
qed

text \<open>
  C9. The claim: the visible characters of the result never exceed \<^verbatim>\<open>length\<close>, and
  \<open>current\<close> never exceeds it. The branch for a \<^verbatim>\<open><!\<close> that does not start a comment
  writes the \<^verbatim>\<open><\<close> and counts it without looking at the budget, right after
  \<^verbatim>\<open>flushWord\<close> may have used the budget up. \<^verbatim>\<open>html_substring("ab<!x", 2)\<close> is \<^verbatim>\<open>ab<\<close>,
  three visible characters, and the main loop ends with \<open>current = 3\<close>.
\<close>

theorem C9_budget_exceeded_by_literal_lt:
  "html_substring voidHtmlTags ''ab<!x'' 2 default_options_arg = Some (Inr ''ab<'')
   \<and> map_option (map_sum id current) (mainloop voidHtmlTags ''ab<!x'' 2 DEFAULT_OPTIONS init_state)
       = Some (Inr 3)"
  by code_simp

text \<open>
  C10. \<^verbatim>\<open>html_substring\<close> terminates on every source, length and options: the model's run
  is never \<open>None\<close>. The main loop's position grows with every iteration (the rewinds of
  the entity loop and of \<^verbatim>\<open>openTag\<close> go back to the position after the character the
  iteration read), and the comment loop, the only one whose condition does not test the
  position against the length, is entered at a \<^verbatim>\<open>-\<close> and so is left at once.
\<close>

theorem C10_html_substring_returns:
  "\<exists>r. html_substring vt source len options = Some r"
  using html_substring_pieces_cases [of vt source len "resolve_options options"]
  unfolding html_substring_def by auto

theorem C10_html_substring_returns_witness:
  "(\<exists>r. html_substring voidHtmlTags ''<!--x'' 10 default_options_arg = Some r)
   \<and> (\<exists>r. html_substring voidHtmlTags ''a&'' 10 default_options_arg = Some r)"
  using C10_html_substring_returns [of voidHtmlTags "''<!--x''" 10 default_options_arg]
    C10_html_substring_returns [of voidHtmlTags "''a&''" 10 default_options_arg]
  by simp

end
